theory Spec2Isabelle
  imports Complex_Main "HOL-Library.Multiset" "HOL-Library.Log_Nat" "HOL-Library.Word"
begin

section \<open>Go runtime: panics, slices and counted loops\<close>

text \<open>
  The program is Go. An index outside a slice, a slice expression with bad bounds and an
  integer division by zero do not return: they raise a runtime panic that ends the
  program. Every function of the embedding returns \<open>panic + 'a\<close>, \<open>Inl\<close> for the panic,
  and every indexing of the source is a checked read.
\<close>

datatype panic = IndexOutOfRange | SliceBoundsOutOfRange | DivideByZero

definition and_then :: "panic + 'a \<Rightarrow> ('a \<Rightarrow> panic + 'b) \<Rightarrow> panic + 'b" where
  "and_then m f = (case m of Inl e \<Rightarrow> Inl e | Inr x \<Rightarrow> f x)"

text \<open>\<open>xs[i]\<close> as an expression, and the assignment \<open>xs[i] = v\<close>.\<close>

definition index :: "'a list \<Rightarrow> nat \<Rightarrow> panic + 'a" where
  "index xs i = (if i < length xs then Inr (xs ! i) else Inl IndexOutOfRange)"

definition store :: "'a list \<Rightarrow> nat \<Rightarrow> 'a \<Rightarrow> panic + 'a list" where
  "store xs i v = (if i < length xs then Inr (xs[i := v]) else Inl IndexOutOfRange)"

text \<open>\<open>g[i][j]\<close> and \<open>g[i][j] = v\<close> on a slice of slices.\<close>

definition index2 :: "'a list list \<Rightarrow> nat \<Rightarrow> nat \<Rightarrow> panic + 'a" where
  "index2 g i j = and_then (index g i) (\<lambda>row. index row j)"

definition store2 :: "'a list list \<Rightarrow> nat \<Rightarrow> nat \<Rightarrow> 'a \<Rightarrow> panic + 'a list list" where
  "store2 g i j v =
     and_then (index g i) (\<lambda>row. and_then (store row j v) (\<lambda>row'. Inr (g[i := row'])))"

text \<open>
  \<open>make([][]float64, h)\<close> followed by \<open>make([]float64, w)\<close> for every row: an \<open>h\<close> by
  \<open>w\<close> grid of zero values.
\<close>

definition make2 :: "nat \<Rightarrow> nat \<Rightarrow> 'a::zero list list" where
  "make2 h w = replicate h (replicate w 0)"

text \<open>
  A counted loop \<open>for k := range ks { body }\<close> over the state \<open>s\<close> of the variables the
  body assigns; a panic in the body ends the loop. \<open>for i := a; i < b; i++\<close> is the
  loop over \<open>[a..<b]\<close>.
\<close>

fun for_loop :: "'k list \<Rightarrow> ('k \<Rightarrow> 's \<Rightarrow> panic + 's) \<Rightarrow> 's \<Rightarrow> panic + 's" where
  "for_loop [] body s = Inr s"
| "for_loop (k # ks) body s = and_then (body k s) (for_loop ks body)"

section \<open>Sequential convolution (Go/main.go, Javascript/main.go: convolve)\<close>

text \<open>
  The samples are \<open>float64\<close>. The convolution touches them only through the constant
  \<open>0.0\<close>, \<open>+\<close> and \<open>*\<close>, so it is embedded for any sample type with these three
  operations and no law assumed of them: what is proved of it holds of IEEE arithmetic,
  rounding and NaN included.

  The zero padding (lines 18 to 31 of convolve, 62 to 75 of convolveParallel). The state
  of the two loops is the pair of the grid read and the buffer written. (\<open>img\<close> and \<open>kern\<close>
  are the source's \<open>image\<close> and \<open>kernel\<close>, names HOL has taken.)
\<close>

definition pad_image ::
  "'a::zero list list \<Rightarrow> nat \<Rightarrow> nat \<Rightarrow> nat \<Rightarrow> nat \<Rightarrow> panic + ('a list list \<times> 'a list list)" where
  "pad_image img height width padHeight padWidth =
     for_loop [0..<height] (\<lambda>i.
       for_loop [0..<width] (\<lambda>j (img, paddedImage).
         and_then (index2 img i j) (\<lambda>v.
         and_then (store2 paddedImage (i + padHeight) (j + padWidth) v) (\<lambda>paddedImage'.
         Inr (img, paddedImage')))))
       (img, make2 (height + 2 * padHeight) (width + 2 * padWidth))"

text \<open>The two innermost loops: the weighted sum of one output cell.\<close>

definition kernel_sum ::
  "'a::{zero,plus,times} list list \<Rightarrow> 'a list list \<Rightarrow> nat \<Rightarrow> nat \<Rightarrow> nat \<Rightarrow> nat \<Rightarrow> panic + 'a" where
  "kernel_sum paddedImage kern kHeight kWidth i j =
     for_loop [0..<kHeight] (\<lambda>ii.
       for_loop [0..<kWidth] (\<lambda>jj sum.
         and_then (index2 paddedImage (i + ii) (j + jj)) (\<lambda>p.
         and_then (index2 kern ii jj) (\<lambda>k.
         Inr (sum + p * k)))))
       0"

text \<open>The body of the loop over the output cells: \<open>result[i][j] = sum\<close>.\<close>

definition convolve_cell ::
  "'a::{zero,plus,times} list list \<Rightarrow> 'a list list \<Rightarrow> nat \<Rightarrow> nat \<Rightarrow> nat \<times> nat \<Rightarrow> 'a list list
     \<Rightarrow> panic + 'a list list" where
  "convolve_cell paddedImage kern kHeight kWidth = (\<lambda>(i, j) result.
     and_then (kernel_sum paddedImage kern kHeight kWidth i j) (\<lambda>sum. store2 result i j sum))"

definition convolve :: "'a::{zero,plus,times} list list \<Rightarrow> 'a list list \<Rightarrow> panic + 'a list list" where
  "convolve img kern =
     and_then (index img 0) (\<lambda>img0.
     and_then (index kern 0) (\<lambda>kern0.
       let height = length img; width = length img0;
           kHeight = length kern; kWidth = length kern0;
           padHeight = kHeight div 2; padWidth = kWidth div 2
       in
       and_then (pad_image img height width padHeight padWidth) (\<lambda>(img', paddedImage).
         for_loop [0..<height] (\<lambda>i.
           for_loop [0..<width] (\<lambda>j.
             convolve_cell paddedImage kern kHeight kWidth (i, j)))
           (make2 height width))))"

section \<open>Parallel convolution (convolveParallel)\<close>

text \<open>
  The rows of worker \<open>workerID\<close> (lines 95 to 101): \<open>rowsPerWorker\<close> rows from
  \<open>workerID * rowsPerWorker\<close>, and up to \<open>height\<close> for the last worker.
\<close>

definition worker_range :: "nat \<Rightarrow> nat \<Rightarrow> nat \<Rightarrow> nat \<Rightarrow> nat \<times> nat" where
  "worker_range height numWorkers rowsPerWorker workerID =
     (let startRow = workerID * rowsPerWorker;
          endRow = startRow + rowsPerWorker
      in if workerID = numWorkers - 1 then (startRow, height) else (startRow, endRow))"

text \<open>
  A \<open>ConvolveResult\<close> holds the slice \<open>result[startRow:endRow]\<close> and the worker's index.
  A Go slice is a window onto its backing array, not a copy: the field \<open>Result\<close> is kept
  as the bounds of the window onto the rows of \<open>result\<close>, and is read through them.
\<close>

record ConvolveResult =
  Result :: "nat \<times> nat"
  Index :: nat

text \<open>
  What a worker goroutine does, one step at a time: it computes and stores its cells row
  by row (\<open>Cell i j\<close> is one pass through the body of the loop over \<open>j\<close>), then sends
  its window of \<open>result\<close> on the channel (\<open>Send\<close>).
\<close>

datatype step = Cell nat nat | Send nat

definition worker_cells :: "nat \<Rightarrow> nat \<times> nat \<Rightarrow> (nat \<times> nat) list" where
  "worker_cells width = (\<lambda>(startRow, endRow). List.product [startRow..<endRow] [0..<width])"

definition worker_steps :: "nat \<Rightarrow> nat \<Rightarrow> nat \<Rightarrow> nat \<Rightarrow> nat \<Rightarrow> step list" where
  "worker_steps height width numWorkers rowsPerWorker workerID =
     map (\<lambda>(i, j). Cell i j) (worker_cells width (worker_range height numWorkers rowsPerWorker workerID))
     @ [Send workerID]"

text \<open>
  The goroutines run concurrently. A schedule is the list of the workers' indices in the
  order in which the scheduler lets them take their next step; a worker that has
  finished (or an index that names no worker) is passed over, and when the schedule is
  used up every worker runs to its end, as \<open>wg.Wait()\<close> has the program wait for all of
  them. Every interleaving of the workers' steps is \<open>interleave sched\<close> for some \<open>sched\<close>.
\<close>

fun interleave :: "nat list \<Rightarrow> 'e list list \<Rightarrow> 'e list" where
  "interleave [] progs = concat progs"
| "interleave (w # sched) progs =
     (if w < length progs
      then (case progs ! w of
              [] \<Rightarrow> interleave sched progs
            | e # es \<Rightarrow> e # interleave sched (progs[w := es]))
      else interleave sched progs)"

text \<open>
  One step on the shared state, the grid \<open>result\<close> and the channel \<open>resultCh\<close>. The slice
  expression \<open>result[startRow:endRow]\<close> panics unless \<open>startRow \<le> endRow \<le> cap(result)\<close>.
\<close>

definition worker_step ::
  "'a::{zero,plus,times} list list \<Rightarrow> 'a list list \<Rightarrow> nat \<Rightarrow> nat \<Rightarrow> nat \<Rightarrow> nat \<Rightarrow> nat \<Rightarrow> step
     \<Rightarrow> 'a list list \<times> ConvolveResult list \<Rightarrow> panic + ('a list list \<times> ConvolveResult list)" where
  "worker_step paddedImage kern kHeight kWidth height numWorkers rowsPerWorker st =
     (\<lambda>(result, resultCh).
        case st of
          Cell i j \<Rightarrow>
            and_then (convolve_cell paddedImage kern kHeight kWidth (i, j) result) (\<lambda>result'.
            Inr (result', resultCh))
        | Send workerID \<Rightarrow>
            (let (startRow, endRow) = worker_range height numWorkers rowsPerWorker workerID
             in if startRow \<le> endRow \<and> endRow \<le> length result
                then Inr (result, resultCh @ [\<lparr>Result = (startRow, endRow), Index = workerID\<rparr>])
                else Inl SliceBoundsOutOfRange))"

text \<open>
  Go's \<open>copy(dst, src)\<close> overwrites the first \<open>min(len(dst), len(src))\<close> elements of
  \<open>dst\<close>. The receiving loop (lines 126 to 129) copies each window received to
  \<open>result[startRow:]\<close>; the window is read when the copy is made.
\<close>

definition go_copy :: "'a list \<Rightarrow> 'a list \<Rightarrow> 'a list" where
  "go_copy dst src = (let n = min (length dst) (length src) in take n src @ drop n dst)"

definition receive :: "nat \<Rightarrow> ConvolveResult \<Rightarrow> 'a list list \<Rightarrow> panic + 'a list list" where
  "receive rowsPerWorker convResult result =
     (let startRow = Index convResult * rowsPerWorker;
          (lo, hi) = Result convResult
      in if startRow \<le> length result
         then Inr (take startRow result
                   @ go_copy (drop startRow result) (take (hi - lo) (drop lo result)))
         else Inl SliceBoundsOutOfRange)"

text \<open>
  \<open>numWorkers\<close> is a Go \<open>int\<close>. \<open>height / numWorkers\<close> panics when it is zero, after the
  padding and the allocation of \<open>result\<close>. When it is negative the loop that starts the
  workers runs no pass, so the quotient is never used; when it is positive both operands
  are non-negative and Go's truncating division is \<open>div\<close> on the naturals. All the
  values are bounded by the lengths of slices, so no 64-bit overflow arises.

  The receiving loop runs while the workers do, and a send waits while the channel is
  full; as the loop copies rows of \<open>result\<close> onto themselves it is run here after the
  last send, in the order of the sends.
\<close>

definition convolveParallel ::
  "'a::{zero,plus,times} list list \<Rightarrow> 'a list list \<Rightarrow> int \<Rightarrow> nat list \<Rightarrow> panic + 'a list list" where
  "convolveParallel img kern numWorkers sched =
     and_then (index img 0) (\<lambda>img0.
     and_then (index kern 0) (\<lambda>kern0.
       let height = length img; width = length img0;
           kHeight = length kern; kWidth = length kern0;
           padHeight = kHeight div 2; padWidth = kWidth div 2
       in
       and_then (pad_image img height width padHeight padWidth) (\<lambda>(img', paddedImage).
         if numWorkers = 0 then Inl DivideByZero
         else
           let rowsPerWorker = height div nat numWorkers;
               workers = map (worker_steps height width (nat numWorkers) rowsPerWorker)
                           [0..<nat numWorkers]
           in
           and_then (for_loop (interleave sched workers)
                       (worker_step paddedImage kern kHeight kWidth height (nat numWorkers) rowsPerWorker)
                       (make2 height width, []))
             (\<lambda>(result, resultCh). for_loop resultCh (receive rowsPerWorker) result))))"

text \<open>
  Who writes which cell. The same program, run with a record of its writes: every pass
  through \<open>result[i][j] = sum\<close> (line 115) adds the index of the goroutine that makes it
  and the cell written, in the order in which the writes happen. The record is no
  variable of the program and nothing reads it: the grid returned, and every panic, is
  that of \<open>convolveParallel\<close> (lemma \<open>convolveParallel_log_result\<close> below). In the list
  of the workers each step is paired with the \<open>workerID\<close> of its goroutine.
\<close>

definition worker_step_log ::
  "'a::{zero,plus,times} list list \<Rightarrow> 'a list list \<Rightarrow> nat \<Rightarrow> nat \<Rightarrow> nat \<Rightarrow> nat \<Rightarrow> nat \<Rightarrow> nat \<times> step
     \<Rightarrow> ('a list list \<times> ConvolveResult list) \<times> (nat \<times> nat \<times> nat) list
     \<Rightarrow> panic + (('a list list \<times> ConvolveResult list) \<times> (nat \<times> nat \<times> nat) list)" where
  "worker_step_log paddedImage kern kHeight kWidth height numWorkers rowsPerWorker =
     (\<lambda>(workerID, st) (s, written).
        and_then (worker_step paddedImage kern kHeight kWidth height numWorkers rowsPerWorker st s) (\<lambda>s'.
        Inr (s', written @ (case st of Cell i j \<Rightarrow> [(workerID, i, j)] | Send w \<Rightarrow> []))))"

definition convolveParallel_log ::
  "'a::{zero,plus,times} list list \<Rightarrow> 'a list list \<Rightarrow> int \<Rightarrow> nat list
     \<Rightarrow> panic + ('a list list \<times> (nat \<times> nat \<times> nat) list)" where
  "convolveParallel_log img kern numWorkers sched =
     and_then (index img 0) (\<lambda>img0.
     and_then (index kern 0) (\<lambda>kern0.
       let height = length img; width = length img0;
           kHeight = length kern; kWidth = length kern0;
           padHeight = kHeight div 2; padWidth = kWidth div 2
       in
       and_then (pad_image img height width padHeight padWidth) (\<lambda>(img', paddedImage).
         if numWorkers = 0 then Inl DivideByZero
         else
           let rowsPerWorker = height div nat numWorkers;
               workers = map (\<lambda>workerID. map (Pair workerID)
                                (worker_steps height width (nat numWorkers) rowsPerWorker workerID))
                           [0..<nat numWorkers]
           in
           and_then (for_loop (interleave sched workers)
                       (worker_step_log paddedImage kern kHeight kWidth height (nat numWorkers) rowsPerWorker)
                       ((make2 height width, []), []))
             (\<lambda>((result, resultCh), written).
                and_then (for_loop resultCh (receive rowsPerWorker) result) (\<lambda>result'.
                Inr (result', written))))))"

section \<open>IEEE 754 binary64 arithmetic (Go's float64)\<close>

text \<open>
  A \<open>float64\<close> is a finite number, one of the two infinities, or NaN. A finite value is
  kept as the rational number it denotes; zero has a sign, \<open>Finite 0\<close> being \<open>+0.0\<close> and
  \<open>NegZero\<close> being \<open>-0.0\<close>. NaN payloads are not distinguished.
\<close>

datatype float64 = Finite rat | NegZero | PosInf | NegInf | NaN

definition pow2 :: "int \<Rightarrow> rat" where
  "pow2 e = (if 0 \<le> e then 2 ^ nat e else 1 / 2 ^ nat (- e))"

text \<open>The binary exponent of a positive rational: \<open>pow2 (ilog2 q) \<le> q < pow2 (ilog2 q + 1)\<close>.\<close>

definition ilog2 :: "rat \<Rightarrow> int" where
  "ilog2 q = (if 1 \<le> q then bitlen \<lfloor>q\<rfloor> - 1 else - bitlen (\<lceil>1 / q\<rceil> - 1))"

text \<open>Rounding to the nearest integer, ties to the even one.\<close>

definition round_even :: "rat \<Rightarrow> int" where
  "round_even x = (let f = \<lfloor>x\<rfloor>; d = x - of_int f
                   in if d < 1 / 2 then f else if 1 / 2 < d then f + 1
                      else if even f then f else f + 1)"

text \<open>
  Rounding of an exact result to binary64, to nearest with ties to even: 53 significant
  bits, the exponent of the last place no lower than \<open>-1074\<close> (gradual underflow), and
  overflow to infinity from \<open>2^1024\<close> on.
\<close>

definition round64 :: "rat \<Rightarrow> float64" where
  "round64 q =
     (if q = 0 then Finite 0
      else let e = max (ilog2 \<bar>q\<bar>) (- 1022);
               n = round_even (\<bar>q\<bar> / pow2 (e - 52))
           in if 1024 \<le> e \<or> (e = 1023 \<and> n = 2 ^ 53) then (if q < 0 then NegInf else PosInf)
              else if n = 0 then (if q < 0 then NegZero else Finite 0)
              else Finite ((if q < 0 then - 1 else 1) * of_int n * pow2 (e - 52)))"

text \<open>A \<open>Finite q\<close> is a value of the format when rounding leaves \<open>q\<close> as it is.\<close>

definition is_float64 :: "float64 \<Rightarrow> bool" where
  "is_float64 x = (case x of Finite q \<Rightarrow> round64 q = Finite q | _ \<Rightarrow> True)"

fun fval :: "float64 \<Rightarrow> rat" where
  "fval (Finite q) = q"
| "fval x = 0"

fun is_finite :: "float64 \<Rightarrow> bool" where
  "is_finite (Finite q) = True"
| "is_finite NegZero = True"
| "is_finite x = False"

fun negative :: "float64 \<Rightarrow> bool" where
  "negative (Finite q) = (q < 0)"
| "negative NegZero = True"
| "negative NegInf = True"
| "negative x = False"

definition is_zero :: "float64 \<Rightarrow> bool" where
  "is_zero x \<longleftrightarrow> x = Finite 0 \<or> x = NegZero"

definition signed_zero :: "bool \<Rightarrow> float64" where
  "signed_zero neg = (if neg then NegZero else Finite 0)"

definition signed_inf :: "bool \<Rightarrow> float64" where
  "signed_inf neg = (if neg then NegInf else PosInf)"

fun fneg :: "float64 \<Rightarrow> float64" where
  "fneg (Finite q) = (if q = 0 then NegZero else Finite (- q))"
| "fneg NegZero = Finite 0"
| "fneg PosInf = NegInf"
| "fneg NegInf = PosInf"
| "fneg NaN = NaN"

text \<open>
  The operations: the special cases of the standard, and otherwise the exact result
  rounded. An exact zero sum is \<open>+0.0\<close> unless both terms are \<open>-0.0\<close>; a zero product or
  quotient has the sign of its operands.
\<close>

definition fadd :: "float64 \<Rightarrow> float64 \<Rightarrow> float64" where
  "fadd a b =
     (if a = NaN \<or> b = NaN then NaN
      else if \<not> is_finite a then (if \<not> is_finite b \<and> a \<noteq> b then NaN else a)
      else if \<not> is_finite b then b
      else let s = fval a + fval b
           in if s = 0 then signed_zero (a = NegZero \<and> b = NegZero) else round64 s)"

definition fsub :: "float64 \<Rightarrow> float64 \<Rightarrow> float64" where
  "fsub a b = fadd a (fneg b)"

definition fmul :: "float64 \<Rightarrow> float64 \<Rightarrow> float64" where
  "fmul a b =
     (if a = NaN \<or> b = NaN then NaN
      else if \<not> is_finite a \<or> \<not> is_finite b
      then (if is_zero a \<or> is_zero b then NaN else signed_inf (negative a \<noteq> negative b))
      else let p = fval a * fval b
           in if p = 0 then signed_zero (negative a \<noteq> negative b) else round64 p)"

definition fdiv :: "float64 \<Rightarrow> float64 \<Rightarrow> float64" where
  "fdiv a b =
     (if a = NaN \<or> b = NaN then NaN
      else if \<not> is_finite a
      then (if \<not> is_finite b then NaN else signed_inf (negative a \<noteq> negative b))
      else if \<not> is_finite b then signed_zero (negative a \<noteq> negative b)
      else if is_zero b then (if is_zero a then NaN else signed_inf (negative a \<noteq> negative b))
      else if is_zero a then signed_zero (negative a \<noteq> negative b)
      else round64 (fval a / fval b))"

text \<open>
  \<open>math.Sqrt\<close> is the correctly rounded square root. \<open>isqrt\<close> is the integer square
  root; \<open>sqrt_sticky q\<close> is the root of \<open>q\<close> cut after at least 57 bits, with half a
  unit of the last of them added when the root is not exact, which rounds as the root
  itself does.
\<close>

function isqrt :: "int \<Rightarrow> int" where
  "isqrt n = (if n \<le> 0 then 0
              else let r = 2 * isqrt (n div 4) in if (r + 1) * (r + 1) \<le> n then r + 1 else r)"
  by pat_completeness auto
termination
  by (relation "measure nat") auto

declare isqrt.simps [simp del]

definition sqrt_sticky :: "rat \<Rightarrow> rat" where
  "sqrt_sticky q =
     (let t = 56 - ilog2 q div 2;
          x = q * pow2 (2 * t);
          n = isqrt \<lfloor>x\<rfloor>
      in (if of_int (n * n) = x then of_int n else of_int n + 1 / 2) * pow2 (- t))"

fun fsqrt :: "float64 \<Rightarrow> float64" where
  "fsqrt (Finite q) = (if q < 0 then NaN else if q = 0 then Finite 0 else round64 (sqrt_sticky q))"
| "fsqrt NegZero = NegZero"
| "fsqrt PosInf = PosInf"
| "fsqrt NegInf = NaN"
| "fsqrt NaN = NaN"

text \<open>Comparison: false whenever an operand is NaN; the two zeros are equal.\<close>

fun flt :: "float64 \<Rightarrow> float64 \<Rightarrow> bool" where
  "flt NaN b = False"
| "flt a NaN = False"
| "flt PosInf b = False"
| "flt a NegInf = False"
| "flt NegInf b = True"
| "flt a PosInf = True"
| "flt a b = (fval a < fval b)"

definition feq :: "float64 \<Rightarrow> float64 \<Rightarrow> bool" where
  "feq a b \<longleftrightarrow> a \<noteq> NaN \<and> b \<noteq> NaN \<and> \<not> flt a b \<and> \<not> flt b a"

text \<open>Go's operators on \<open>float64\<close>.\<close>

instantiation float64 :: "{zero, plus, minus, uminus, times, inverse, ord}"
begin

definition zero_float64 :: float64 where "0 = Finite 0"

definition plus_float64 :: "float64 \<Rightarrow> float64 \<Rightarrow> float64" where "a + b = fadd a b"

definition minus_float64 :: "float64 \<Rightarrow> float64 \<Rightarrow> float64" where "a - b = fsub a b"

definition uminus_float64 :: "float64 \<Rightarrow> float64" where "- a = fneg a"

definition times_float64 :: "float64 \<Rightarrow> float64 \<Rightarrow> float64" where "a * b = fmul a b"

definition divide_float64 :: "float64 \<Rightarrow> float64 \<Rightarrow> float64" where "divide a b = fdiv a b"

definition inverse_float64 :: "float64 \<Rightarrow> float64" where "inverse a = fdiv (Finite 1) a"

definition less_float64 :: "float64 \<Rightarrow> float64 \<Rightarrow> bool" where "a < b \<longleftrightarrow> flt a b"

definition less_eq_float64 :: "float64 \<Rightarrow> float64 \<Rightarrow> bool" where "a \<le> b \<longleftrightarrow> flt a b \<or> feq a b"

instance ..

end

text \<open>The Sobel kernels (Go/main.go lines 86 to 96; the globals of the parallel program).\<close>

definition sobelX :: "float64 list list" where
  "sobelX = [[Finite (- 1), Finite 0, Finite 1],
             [Finite (- 2), Finite 0, Finite 2],
             [Finite (- 1), Finite 0, Finite 1]]"

definition sobelY :: "float64 list list" where
  "sobelY = [[Finite (- 1), Finite (- 2), Finite (- 1)],
             [Finite 0, Finite 0, Finite 0],
             [Finite 1, Finite 2, Finite 1]]"

section \<open>Gradient combiner (combineAndNormalize)\<close>

text \<open>
  The three loop nests of combineAndNormalize. The first fills \<open>edges\<close> with the
  magnitudes; its state is the two gradient grids it reads and the grid it writes.
  \<open>len(gradientX[0])\<close> is evaluated only inside the loops over the rows, so with no row
  it is never evaluated. The second scans for the least and the greatest magnitude,
  from \<open>edges[0][0]\<close>; the third rescales \<open>edges\<close> in place.
\<close>

definition magnitude :: "float64 \<Rightarrow> float64 \<Rightarrow> float64" where
  "magnitude x y = fsqrt (x * x + y * y)"

definition rescale :: "float64 \<Rightarrow> float64 \<Rightarrow> float64 \<Rightarrow> float64" where
  "rescale minValue maxValue e = Finite 255 * (e - minValue) / (maxValue - minValue)"

definition combineAndNormalize_vars ::
  "float64 list list \<Rightarrow> float64 list list
     \<Rightarrow> panic + (float64 list list \<times> float64 list list \<times> float64 list list)" where
  "combineAndNormalize_vars gradientX gradientY =
     (let height = length gradientX;
          width = (case gradientX of [] \<Rightarrow> 0 | gradientX0 # rest \<Rightarrow> length gradientX0)
      in
      and_then
        (for_loop [0..<height] (\<lambda>i.
           for_loop [0..<width] (\<lambda>j (gradientX, gradientY, edges).
             and_then (index2 gradientX i j) (\<lambda>x.
             and_then (index2 gradientY i j) (\<lambda>y.
             and_then (store2 edges i j (magnitude x y)) (\<lambda>edges'.
             Inr (gradientX, gradientY, edges'))))))
           (gradientX, gradientY, make2 height width))
        (\<lambda>(gradientX, gradientY, edges).
      and_then (index2 edges 0 0) (\<lambda>first.
      and_then (index edges 0) (\<lambda>edges0.
      and_then
        (for_loop [0..<length edges] (\<lambda>i.
           for_loop [0..<length edges0] (\<lambda>j (minValue, maxValue).
             and_then (index2 edges i j) (\<lambda>e.
             Inr (if e < minValue then e else minValue, if e > maxValue then e else maxValue))))
           (first, first))
        (\<lambda>(minValue, maxValue).
      and_then
        (for_loop [0..<length edges] (\<lambda>i.
           for_loop [0..<length edges0] (\<lambda>j edges.
             and_then (index2 edges i j) (\<lambda>e.
             store2 edges i j (rescale minValue maxValue e))))
           edges)
        (\<lambda>edges. Inr (gradientX, gradientY, edges)))))))"

definition combineAndNormalize ::
  "float64 list list \<Rightarrow> float64 list list \<Rightarrow> panic + float64 list list" where
  "combineAndNormalize gradientX gradientY =
     and_then (combineAndNormalize_vars gradientX gradientY) (\<lambda>(gradientX', gradientY', edges).
     Inr edges)"

section \<open>Quantization (float64ArrayToImage)\<close>

text \<open>
  The conversion \<open>uint8(x)\<close> of a \<open>float64\<close> variable. The language fixes it where the
  value cut at the decimal point is a \<open>uint8\<close>: the fraction is discarded. For any other
  operand the conversion succeeds with a value that depends on the implementation; that
  value is the parameter \<open>other\<close>.
\<close>

definition truncate :: "rat \<Rightarrow> int" where
  "truncate q = (if 0 \<le> q then \<lfloor>q\<rfloor> else \<lceil>q\<rceil>)"

definition uint8_of :: "(float64 \<Rightarrow> 8 word) \<Rightarrow> float64 \<Rightarrow> 8 word" where
  "uint8_of other x =
     (case x of
        Finite q \<Rightarrow> if 0 \<le> truncate q \<and> truncate q \<le> 255 then word_of_int (truncate q) else other x
      | NegZero \<Rightarrow> 0
      | _ \<Rightarrow> other x)"

text \<open>
  What the gc compiler does with the other operands: it converts to a signed 32-bit
  integer and keeps the low byte (the hardware's answer for NaN, the infinities and
  values beyond 32 bits is taken as 0 here).
\<close>

definition low_byte :: "float64 \<Rightarrow> 8 word" where
  "low_byte x =
     (case x of
        Finite q \<Rightarrow> if - (2 ^ 31) \<le> truncate q \<and> truncate q < 2 ^ 31 then word_of_int (truncate q) else 0
      | _ \<Rightarrow> 0)"

text \<open>
  An \<open>image.Gray\<close> of \<open>image.Rect(0, 0, width, height)\<close> is kept as its rows of pixels.
  \<open>SetGray(x, y, c)\<close> does nothing for a point outside the rectangle.
\<close>

definition NewGray :: "nat \<Rightarrow> nat \<Rightarrow> 8 word list list" where
  "NewGray width height = replicate height (replicate width 0)"

definition SetGray :: "8 word list list \<Rightarrow> nat \<Rightarrow> nat \<Rightarrow> 8 word \<Rightarrow> 8 word list list" where
  "SetGray gray x y c =
     (if y < length gray \<and> x < length (gray ! y) then gray[y := (gray ! y)[x := c]] else gray)"

text \<open>The body of the two loops, in both programs.\<close>

definition quantize_cell ::
  "(float64 \<Rightarrow> 8 word) \<Rightarrow> float64 list list \<Rightarrow> nat \<times> nat \<Rightarrow> 8 word list list
     \<Rightarrow> panic + 8 word list list" where
  "quantize_cell other data = (\<lambda>(y, x) gray.
     and_then (index2 data y x) (\<lambda>v. Inr (SetGray gray x y (uint8_of other v))))"

text \<open>The sequential program (Javascript/main.go).\<close>

definition float64ArrayToImage ::
  "(float64 \<Rightarrow> 8 word) \<Rightarrow> float64 list list \<Rightarrow> panic + 8 word list list" where
  "float64ArrayToImage other data =
     and_then (index data 0) (\<lambda>data0.
       let height = length data; width = length data0
       in for_loop [0..<height] (\<lambda>y.
            for_loop [0..<width] (\<lambda>x. quantize_cell other data (y, x)))
            (NewGray width height))"

text \<open>
  The parallel program: the rows are shared out as in convolveParallel, and the workers
  write their pixels in the order a schedule gives.
\<close>

definition float64ArrayToImage_workers ::
  "(float64 \<Rightarrow> 8 word) \<Rightarrow> float64 list list \<Rightarrow> int \<Rightarrow> nat list \<Rightarrow> panic + 8 word list list" where
  "float64ArrayToImage_workers other data numWorkers sched =
     and_then (index data 0) (\<lambda>data0.
       let height = length data; width = length data0;
           gray = NewGray width height
       in if numWorkers = 0 then Inl DivideByZero
          else
            let rowsPerWorker = height div nat numWorkers;
                workers = map (\<lambda>i. worker_cells width
                                      (worker_range height (nat numWorkers) rowsPerWorker i))
                            [0..<nat numWorkers]
            in for_loop (interleave sched workers) (quantize_cell other data) gray)"

section \<open>Properties of the arithmetic\<close>

subsection \<open>The order of float64\<close>

lemma float64_le_refl: "a \<noteq> NaN \<Longrightarrow> a \<le> (a :: float64)"
  by (cases a) (simp_all add: less_eq_float64_def less_float64_def feq_def)

lemma float64_less_imp_le: "a < b \<Longrightarrow> a \<le> (b :: float64)"
  by (simp add: less_eq_float64_def less_float64_def)

lemma float64_not_less: "a \<noteq> NaN \<Longrightarrow> b \<noteq> NaN \<Longrightarrow> \<not> a < b \<Longrightarrow> b \<le> (a :: float64)"
  by (cases a; cases b) (auto simp: less_eq_float64_def less_float64_def feq_def)

lemma float64_le_trans: "a \<le> b \<Longrightarrow> b \<le> c \<Longrightarrow> a \<le> (c :: float64)"
  by (cases a; cases b; cases c) (auto simp: less_eq_float64_def less_float64_def feq_def)

lemma float64_le_not_NaN: "a \<le> (b :: float64) \<Longrightarrow> a \<noteq> NaN \<and> b \<noteq> NaN"
  by (cases a; cases b) (auto simp: less_eq_float64_def less_float64_def feq_def)

subsection \<open>The binary exponent and the integer square root\<close>

lemma pow2_nonneg: "0 \<le> e \<Longrightarrow> pow2 e = 2 ^ nat e"
  by (simp add: pow2_def)

lemma pow2_neg: "e \<le> 0 \<Longrightarrow> pow2 e = 1 / 2 ^ nat (- e)"
  by (cases "e = 0") (simp_all add: pow2_def)

lemma ilog2_bounds:
  assumes "0 < q"
  shows "pow2 (ilog2 q) \<le> q" and "q < pow2 (ilog2 q + 1)"
proof -
  have "pow2 (ilog2 q) \<le> q \<and> q < pow2 (ilog2 q + 1)"
  proof (cases "1 \<le> q")
    case True
    define n where "n = \<lfloor>q\<rfloor>"
    have n: "0 < n" using True by (simp add: n_def)
    have b: "2 ^ nat (bitlen n - 1) \<le> n" "n < 2 ^ nat (bitlen n)"
      using bitlen_bounds[OF n] by simp_all
    have pos: "1 \<le> bitlen n" using n by (simp add: bitlen_alt_def)
    have e: "ilog2 q = bitlen n - 1" using True by (simp add: ilog2_def n_def)
    have "(of_int (2 ^ nat (bitlen n - 1)) :: rat) \<le> of_int n"
      using b(1) by (simp only: of_int_le_iff)
    also have "\<dots> \<le> q" by (simp add: n_def)
    finally have lo: "pow2 (ilog2 q) \<le> q"
      using pos by (simp add: e pow2_nonneg)
    have "n + 1 \<le> 2 ^ nat (bitlen n)" using b(2) by simp
    then have "(of_int (n + 1) :: rat) \<le> of_int (2 ^ nat (bitlen n))"
      by (simp only: of_int_le_iff)
    moreover have "q < of_int (n + 1)" using floor_correct[of q] by (simp add: n_def)
    ultimately have "q < of_int (2 ^ nat (bitlen n))" by (rule order_less_le_trans[rotated])
    then have hi: "q < pow2 (ilog2 q + 1)"
      using pos by (simp add: e pow2_nonneg)
    from lo hi show ?thesis ..
  next
    case False
    define r where "r = 1 / q"
    define m where "m = \<lceil>r\<rceil> - 1"
    have r: "1 < r" using assms False by (simp add: r_def)
    then have "1 < \<lceil>r\<rceil>" by (simp add: less_ceiling_iff)
    then have m: "0 < m" by (simp add: m_def)
    have b: "2 ^ nat (bitlen m - 1) \<le> m" "m < 2 ^ nat (bitlen m)"
      using bitlen_bounds[OF m] by simp_all
    have pos: "1 \<le> bitlen m" using m by (simp add: bitlen_alt_def)
    have e: "ilog2 q = - bitlen m" using False by (simp add: ilog2_def m_def r_def)
    have mr: "of_int m < r" "r \<le> of_int (m + 1)"
      using ceiling_correct[of r] by (simp_all add: m_def)
    have "(of_int (m + 1) :: rat) \<le> of_int (2 ^ nat (bitlen m))"
      using b(2) by (simp only: of_int_le_iff)
    with mr(2) have "r \<le> 2 ^ nat (bitlen m)" by simp
    then have "1 / 2 ^ nat (bitlen m) \<le> q"
      using assms by (simp add: r_def field_simps)
    then have lo: "pow2 (ilog2 q) \<le> q"
      using pos by (simp add: e pow2_neg)
    have "(2 :: rat) ^ nat (bitlen m - 1) = of_int (2 ^ nat (bitlen m - 1))" by simp
    also have "\<dots> \<le> of_int m"
      using b(1) by (simp only: of_int_le_iff)
    also note mr(1)
    finally have "2 ^ nat (bitlen m - 1) < r" .
    then have "q < 1 / 2 ^ nat (bitlen m - 1)"
      using assms by (simp add: r_def field_simps)
    moreover have "pow2 (ilog2 q + 1) = 1 / 2 ^ nat (bitlen m - 1)"
      using pos by (simp add: e pow2_neg)
    ultimately have hi: "q < pow2 (ilog2 q + 1)" by simp
    from lo hi show ?thesis ..
  qed
  then show "pow2 (ilog2 q) \<le> q" and "q < pow2 (ilog2 q + 1)" by simp_all
qed

lemma isqrt_bounds: "0 \<le> n \<Longrightarrow> 0 \<le> isqrt n \<and> isqrt n * isqrt n \<le> n \<and> n < (isqrt n + 1) * (isqrt n + 1)"
proof (induction n rule: isqrt.induct)
  case (1 n)
  show ?case
  proof (cases "n \<le> 0")
    case True
    with "1.prems" have "n = 0" by simp
    then show ?thesis by (simp add: isqrt.simps)
  next
    case False
    define s where "s = isqrt (n div 4)"
    have IH: "0 \<le> s \<and> s * s \<le> n div 4 \<and> n div 4 < (s + 1) * (s + 1)"
      unfolding s_def using "1.IH"[OF False] "1.prems" by simp
    have eq: "isqrt n = (if (2 * s + 1) * (2 * s + 1) \<le> n then 2 * s + 1 else 2 * s)"
      using False by (subst isqrt.simps) (simp add: s_def Let_def)
    have lo: "4 * (s * s) \<le> n" using IH by linarith
    have "n div 4 + 1 \<le> (s + 1) * (s + 1)" using IH by simp
    then have "n < 4 * ((s + 1) * (s + 1))" by linarith
    then have hi: "n < (2 * s + 2) * (2 * s + 2)" by (simp add: algebra_simps)
    show ?thesis
    proof (cases "(2 * s + 1) * (2 * s + 1) \<le> n")
      case True
      then show ?thesis using IH hi by (simp add: eq algebra_simps)
    next
      case False
      then show ?thesis using IH lo by (simp add: eq algebra_simps)
    qed
  qed
qed

subsection \<open>Evaluating the arithmetic on numerals\<close>

text \<open>
  The definitions of the arithmetic compute: with the facts \<open>float_eval\<close> the simplifier
  evaluates an operation on numerals.
\<close>

lemma floor_rat_numeral_div: "\<lfloor>numeral a / numeral b :: rat\<rfloor> = numeral a div numeral b"
  using floor_divide_of_int_eq[of "numeral a" "numeral b", where ?'a = rat] by simp

lemma ceiling_rat_numeral_div: "\<lceil>numeral a / numeral b :: rat\<rceil> = - ((- numeral a) div numeral b)"
  using floor_divide_of_int_eq[of "- numeral a" "numeral b", where ?'a = rat]
  by (simp add: ceiling_def)

lemma bitlen_numeral: "bitlen (numeral k) = bitlen (numeral k div 2) + 1"
  by (subst compute_bitlen) simp

lemma bitlen_1: "bitlen 1 = 1"
  by (subst compute_bitlen) simp

lemmas float_eval = fadd_def fsub_def fmul_def fdiv_def round64_def ilog2_def pow2_def round_even_def
  Let_def signed_zero_def signed_inf_def is_zero_def sqrt_sticky_def isqrt.simps
  plus_float64_def times_float64_def minus_float64_def divide_float64_def zero_float64_def
  less_float64_def less_eq_float64_def feq_def magnitude_def rescale_def is_float64_def
  floor_rat_numeral_div ceiling_rat_numeral_div bitlen_numeral bitlen_1

text \<open>Some values of the arithmetic, as the hardware gives them.\<close>

lemma float64_examples:
  "round64 (1 / 10) = Finite (3602879701896397 / 36028797018963968)"
  "round64 (1 / 10) + round64 (2 / 10) = Finite (1351079888211149 / 4503599627370496)"
  "Finite 1 / Finite 3 = Finite (6004799503160661 / 18014398509481984)"
  "fsqrt (Finite 2) = Finite (6369051672525773 / 4503599627370496)"
  "Finite 1 / Finite 0 = PosInf"
  "Finite 0 / Finite 0 = NaN"
  "Finite 0 * Finite (- 1) = NegZero"
  "\<not> NaN < NaN"
  by (simp_all add: float_eval)

section \<open>Loops over cells\<close>

text \<open>
  Properties of the counted loops, and of loops that write one cell of a grid in each pass.
\<close>

lemma and_then_Inr [simp]: "and_then (Inr x) f = f x"
  by (simp add: and_then_def)

lemma and_then_Inl [simp]: "and_then (Inl e) f = Inl e"
  by (simp add: and_then_def)

lemma and_then_eq_Inr_iff: "and_then m f = Inr y \<longleftrightarrow> (\<exists>x. m = Inr x \<and> f x = Inr y)"
  by (cases m) simp_all

lemma for_loop_append:
  "for_loop (xs @ ys) body s = and_then (for_loop xs body s) (for_loop ys body)"
proof (induction xs arbitrary: s)
  case Nil
  show ?case by simp
next
  case (Cons x xs)
  show ?case by (cases "body x s") (simp_all add: Cons.IH)
qed

lemma for_loop_map: "for_loop (map f ks) body s = for_loop ks (\<lambda>k. body (f k)) s"
proof (induction ks arbitrary: s)
  case Nil
  show ?case by simp
next
  case (Cons k ks)
  show ?case by (cases "body (f k) s") (simp_all add: Cons.IH)
qed

lemma for_loop_cong:
  "(\<And>k s. k \<in> set ks \<Longrightarrow> body k s = body' k s) \<Longrightarrow> for_loop ks body s = for_loop ks body' s"
proof (induction ks arbitrary: s)
  case Nil
  show ?case by simp
next
  case (Cons k ks)
  have "body k s = body' k s" by (rule Cons.prems) simp
  moreover have "for_loop ks body t = for_loop ks body' t" for t
    by (rule Cons.IH) (simp add: Cons.prems)
  ultimately show ?case by (cases "body' k s") simp_all
qed

lemma for_loop_product:
  "for_loop xs (\<lambda>i. for_loop ys (\<lambda>j. body (i, j))) s = for_loop (List.product xs ys) body s"
proof (induction xs arbitrary: s)
  case Nil
  show ?case by simp
next
  case (Cons x xs)
  have "for_loop (map (Pair x) ys) body s = for_loop ys (\<lambda>j. body (x, j)) s"
    by (simp add: for_loop_map)
  then show ?case
    by (cases "for_loop ys (\<lambda>j. body (x, j)) s") (simp_all add: for_loop_append Cons.IH)
qed

lemma for_loop_pure:
  "(\<And>k s. k \<in> set ks \<Longrightarrow> body k s = Inr (f s k)) \<Longrightarrow> for_loop ks body s = Inr (foldl f s ks)"
proof (induction ks arbitrary: s)
  case Nil
  show ?case by simp
next
  case (Cons k ks)
  have "body k s = Inr (f s k)" by (rule Cons.prems) simp
  moreover have "for_loop ks body (f s k) = Inr (foldl f (f s k) ks)"
    by (rule Cons.IH) (simp add: Cons.prems)
  ultimately show ?case by simp
qed

definition painted :: "(nat \<times> nat) set \<Rightarrow> (nat \<Rightarrow> nat \<Rightarrow> 'a) \<Rightarrow> 'a list list \<Rightarrow> 'a list list" where
  "painted C v g =
     map (\<lambda>i. map (\<lambda>j. if (i, j) \<in> C then v i j else g ! i ! j) [0..<length (g ! i)]) [0..<length g]"

lemma length_painted [simp]: "length (painted C v g) = length g"
  by (simp add: painted_def)

lemma length_painted_row [simp]: "i < length g \<Longrightarrow> length (painted C v g ! i) = length (g ! i)"
  by (simp add: painted_def)

lemma painted_nth:
  "i < length g \<Longrightarrow> j < length (g ! i) \<Longrightarrow>
     painted C v g ! i ! j = (if (i, j) \<in> C then v i j else g ! i ! j)"
  by (simp add: painted_def)

lemma painted_empty [simp]: "painted {} v g = g"
  by (auto simp: painted_def intro!: nth_equalityI)

lemma store2_Inr:
  "i < length g \<Longrightarrow> j < length (g ! i) \<Longrightarrow> store2 g i j x = Inr (g[i := (g ! i)[j := x]])"
  by (simp add: store2_def index_def store_def)

lemma length_update2_row [simp]:
  "a < length g \<Longrightarrow> length (g[i := (g ! i)[j := x]] ! a) = length (g ! a)"
  by (cases "a = i") simp_all

lemma painted_update:
  assumes "i < length g" "j < length (g ! i)"
  shows "painted C v (g[i := (g ! i)[j := v i j]]) = painted (insert (i, j) C) v g"
proof (rule nth_equalityI)
  show "length (painted C v (g[i := (g ! i)[j := v i j]])) = length (painted (insert (i, j) C) v g)"
    by simp
next
  fix a
  assume "a < length (painted C v (g[i := (g ! i)[j := v i j]]))"
  then have a: "a < length g" by simp
  show "painted C v (g[i := (g ! i)[j := v i j]]) ! a = painted (insert (i, j) C) v g ! a"
  proof (rule nth_equalityI)
    show "length (painted C v (g[i := (g ! i)[j := v i j]]) ! a) = length (painted (insert (i, j) C) v g ! a)"
      using a by simp
  next
    fix b
    assume "b < length (painted C v (g[i := (g ! i)[j := v i j]]) ! a)"
    then have b: "b < length (g ! a)"
      using a by simp
    show "painted C v (g[i := (g ! i)[j := v i j]]) ! a ! b = painted (insert (i, j) C) v g ! a ! b"
      using a b assms by (auto simp: painted_nth nth_list_update)
  qed
qed

lemma write_loop:
  assumes "\<And>i j. (i, j) \<in> set cells \<Longrightarrow> i < length g \<and> j < length (g ! i)"
    and "\<And>i j. (i, j) \<in> set cells \<Longrightarrow> val i j = Inr (v i j)"
  shows "for_loop cells (\<lambda>(i, j) r. and_then (val i j) (\<lambda>x. store2 r i j x)) g
           = Inr (painted (set cells) v g)"
  using assms
proof (induction cells arbitrary: g)
  case Nil
  show ?case by simp
next
  case (Cons c cells)
  obtain i j where c: "c = (i, j)" by (cases c)
  let ?g = "g[i := (g ! i)[j := v i j]]"
  have ij: "i < length g" "j < length (g ! i)" using Cons.prems(1)[of i j] c by simp_all
  have val: "val i j = Inr (v i j)" using Cons.prems(2)[of i j] c by simp
  have "for_loop cells (\<lambda>(i, j) r. and_then (val i j) (\<lambda>x. store2 r i j x)) ?g
          = Inr (painted (set cells) v ?g)"
  proof (rule Cons.IH)
    fix a b assume "(a, b) \<in> set cells"
    then have "a < length g \<and> b < length (g ! a)" using Cons.prems(1)[of a b] by simp
    then show "a < length ?g \<and> b < length (?g ! a)" by simp
  next
    fix a b assume "(a, b) \<in> set cells"
    then show "val a b = Inr (v a b)" using Cons.prems(2)[of a b] by simp
  qed
  then show ?case
    using ij val by (simp add: c store2_Inr painted_update)
qed

section \<open>The padded grid\<close>

definition grid_of_size :: "'a list list \<Rightarrow> nat \<Rightarrow> nat \<Rightarrow> bool" where
  "grid_of_size g h w \<longleftrightarrow> length g = h \<and> (\<forall>row \<in> set g. length row = w)"

definition pad_at :: "'a::zero list list \<Rightarrow> nat \<Rightarrow> nat \<Rightarrow> nat \<Rightarrow> nat \<Rightarrow> nat \<Rightarrow> nat \<Rightarrow> 'a" where
  "pad_at g h w padH padW r c =
     (if padH \<le> r \<and> r < padH + h \<and> padW \<le> c \<and> c < padW + w
      then g ! (r - padH) ! (c - padW) else 0)"

definition weighted_sum ::
  "'a::{zero,plus,times} list list \<Rightarrow> nat \<Rightarrow> nat \<Rightarrow> 'a list list \<Rightarrow> nat \<Rightarrow> nat \<Rightarrow> nat \<Rightarrow> nat \<Rightarrow> 'a" where
  "weighted_sum g h w k kH kW i j =
     foldl (\<lambda>s (a, b). s + pad_at g h w (kH div 2) (kW div 2) (i + a) (j + b) * k ! a ! b) 0
       (List.product [0..<kH] [0..<kW])"

lemma grid_of_size_nth:
  "grid_of_size g h w \<longleftrightarrow> length g = h \<and> (\<forall>i<h. length (g ! i) = w)"
  by (auto simp: grid_of_size_def all_set_conv_all_nth)

lemma grid_of_sizeD:
  "grid_of_size g h w \<Longrightarrow> length g = h"
  "grid_of_size g h w \<Longrightarrow> i < h \<Longrightarrow> length (g ! i) = w"
  by (auto simp: grid_of_size_nth)

lemma grid_of_size_make2 [simp]: "grid_of_size (make2 h w) h w"
  by (auto simp: grid_of_size_def make2_def)

lemma make2_nth [simp]: "i < h \<Longrightarrow> j < w \<Longrightarrow> make2 h w ! i ! j = 0"
  by (simp add: make2_def)

lemma length_make2 [simp]: "length (make2 h w) = h"
  by (simp add: make2_def)

lemma length_make2_row [simp]: "i < h \<Longrightarrow> length (make2 h w ! i) = w"
  by (simp add: make2_def)

lemma grid_of_size_painted [simp]: "grid_of_size (painted C v g) h w = grid_of_size g h w"
  by (auto simp: grid_of_size_nth)

lemma index2_Inr: "i < length g \<Longrightarrow> j < length (g ! i) \<Longrightarrow> index2 g i j = Inr (g ! i ! j)"
  by (simp add: index2_def index_def)

lemma and_then_assoc: "and_then (and_then m f) g = and_then m (\<lambda>x. and_then (f x) g)"
  by (cases m) simp_all

lemma for_loop_frame:
  "for_loop ks (\<lambda>k (a, b). and_then (body a k b) (\<lambda>b'. Inr (a, b'))) (a, b)
     = and_then (for_loop ks (body a) b) (\<lambda>b'. Inr (a, b'))"
proof (induction ks arbitrary: b)
  case Nil
  show ?case by simp
next
  case (Cons k ks)
  show ?case by (cases "body a k b") (simp_all add: Cons.IH)
qed

definition padded :: "'a::zero list list \<Rightarrow> nat \<Rightarrow> nat \<Rightarrow> nat \<Rightarrow> nat \<Rightarrow> 'a list list" where
  "padded g h w padH padW =
     painted ((\<lambda>(i, j). (i + padH, j + padW)) ` ({0..<h} \<times> {0..<w}))
       (\<lambda>r c. g ! (r - padH) ! (c - padW)) (make2 (h + 2 * padH) (w + 2 * padW))"

lemma pad_image_Inr:
  assumes "grid_of_size g h w"
  shows "pad_image g h w padH padW = Inr (g, padded g h w padH padW)"
proof -
  let ?shift = "\<lambda>(i, j). (i + padH, j + padW)"
  let ?val = "\<lambda>r c. index2 g (r - padH) (c - padW)"
  let ?P0 = "make2 (h + 2 * padH) (w + 2 * padW) :: 'a list list"
  let ?cells = "List.product [0..<h] [0..<w]"
  have "pad_image g h w padH padW
          = for_loop ?cells (\<lambda>(i, j) (a, b).
              and_then (index2 a i j) (\<lambda>v.
              and_then (store2 b (i + padH) (j + padW) v) (\<lambda>b'. Inr (a, b')))) (g, ?P0)"
    unfolding pad_image_def
    by (rule for_loop_product[of _ _ "\<lambda>(i, j) (a, b).
              and_then (index2 a i j) (\<lambda>v.
              and_then (store2 b (i + padH) (j + padW) v) (\<lambda>b'. Inr (a, b')))", simplified])
  also have "\<dots> = for_loop ?cells (\<lambda>k (a, b).
              and_then ((\<lambda>a (i, j) b. and_then (index2 a i j) (\<lambda>v. store2 b (i + padH) (j + padW) v)) a k b)
                (\<lambda>b'. Inr (a, b'))) (g, ?P0)"
    by (rule for_loop_cong) (auto simp: and_then_assoc)
  also have "\<dots> = and_then (for_loop ?cells
                 (\<lambda>(i, j) b. and_then (index2 g i j) (\<lambda>v. store2 b (i + padH) (j + padW) v)) ?P0)
               (\<lambda>b'. Inr (g, b'))"
    by (rule for_loop_frame)
  also have "for_loop ?cells
                 (\<lambda>(i, j) b. and_then (index2 g i j) (\<lambda>v. store2 b (i + padH) (j + padW) v)) ?P0
             = for_loop (map ?shift ?cells) (\<lambda>(r, c) b. and_then (?val r c) (\<lambda>v. store2 b r c v)) ?P0"
    unfolding for_loop_map by (rule for_loop_cong) auto
  also have "\<dots> = Inr (painted (set (map ?shift ?cells)) (\<lambda>r c. g ! (r - padH) ! (c - padW)) ?P0)"
  proof (rule write_loop)
    fix r c assume "(r, c) \<in> set (map ?shift ?cells)"
    then obtain i j where ij: "i < h" "j < w" "r = i + padH" "c = j + padW" by auto
    then show "r < length ?P0 \<and> c < length (?P0 ! r)" by simp
    show "?val r c = Inr (g ! (r - padH) ! (c - padW))"
      using ij assms by (simp add: index2_Inr grid_of_sizeD)
  qed
  finally show ?thesis
    by (simp add: padded_def)
qed

lemma padded_size: "grid_of_size (padded g h w padH padW) (h + 2 * padH) (w + 2 * padW)"
  by (simp add: padded_def)

lemma padded_nth:
  assumes "r < h + 2 * padH" "c < w + 2 * padW"
  shows "padded g h w padH padW ! r ! c = pad_at g h w padH padW r c"
proof -
  have "((r, c) \<in> (\<lambda>(i, j). (i + padH, j + padW)) ` ({0..<h} \<times> {0..<w}))
          \<longleftrightarrow> (padH \<le> r \<and> r < padH + h \<and> padW \<le> c \<and> c < padW + w)"
  proof
    assume "(r, c) \<in> (\<lambda>(i, j). (i + padH, j + padW)) ` ({0..<h} \<times> {0..<w})"
    then show "padH \<le> r \<and> r < padH + h \<and> padW \<le> c \<and> c < padW + w" by auto
  next
    assume a: "padH \<le> r \<and> r < padH + h \<and> padW \<le> c \<and> c < padW + w"
    then have "(r - padH, c - padW) \<in> {0..<h} \<times> {0..<w}" by auto
    moreover have "(r, c) = (\<lambda>(i, j). (i + padH, j + padW)) (r - padH, c - padW)" using a by simp
    ultimately show "(r, c) \<in> (\<lambda>(i, j). (i + padH, j + padW)) ` ({0..<h} \<times> {0..<w})"
      by (rule rev_image_eqI)
  qed
  then show ?thesis
    using assms by (simp add: padded_def painted_nth pad_at_def)
qed

section \<open>The weighted sum of a cell\<close>

lemma kernel_sum_Inr:
  assumes P: "grid_of_size P (h + 2 * (kH div 2)) (w + 2 * (kW div 2))"
    and K: "grid_of_size k kH kW"
    and ij: "i < h" "j < w"
  shows "kernel_sum P k kH kW i j
           = Inr (foldl (\<lambda>s (a, b). s + P ! (i + a) ! (j + b) * k ! a ! b) 0
                    (List.product [0..<kH] [0..<kW]))"
proof -
  let ?body = "\<lambda>(ii, jj) s.
         and_then (index2 P (i + ii) (j + jj)) (\<lambda>p.
         and_then (index2 k ii jj) (\<lambda>q. Inr (s + p * q)))"
  have "kernel_sum P k kH kW i j = for_loop (List.product [0..<kH] [0..<kW]) ?body 0"
    unfolding kernel_sum_def by (rule for_loop_product[of _ _ ?body, simplified])
  also have "\<dots> = Inr (foldl (\<lambda>s (a, b). s + P ! (i + a) ! (j + b) * k ! a ! b) 0
                    (List.product [0..<kH] [0..<kW]))"
  proof (rule for_loop_pure)
    fix c s assume "c \<in> set (List.product [0..<kH] [0..<kW])"
    then obtain a b where c: "c = (a, b)" "a < kH" "b < kW" by auto
    have "i + a < h + 2 * (kH div 2)" "j + b < w + 2 * (kW div 2)"
      using ij c by presburger+
    then have "index2 P (i + a) (j + b) = Inr (P ! (i + a) ! (j + b))"
      using P by (simp add: index2_Inr grid_of_sizeD)
    moreover have "index2 k a b = Inr (k ! a ! b)"
      using K c by (simp add: index2_Inr grid_of_sizeD)
    ultimately show "?body c s = Inr (case c of (a, b) \<Rightarrow> s + P ! (i + a) ! (j + b) * k ! a ! b)"
      by (simp add: c)
  qed
  finally show ?thesis .
qed

lemma foldl_cong_set:
  "(\<And>s x. x \<in> set xs \<Longrightarrow> f s x = g s x) \<Longrightarrow> foldl f s xs = foldl g s xs"
  by (induction xs arbitrary: s) simp_all

lemma kernel_sum_padded:
  assumes G: "grid_of_size g h w" and K: "grid_of_size k kH kW" and ij: "i < h" "j < w"
  shows "kernel_sum (padded g h w (kH div 2) (kW div 2)) k kH kW i j
           = Inr (weighted_sum g h w k kH kW i j)"
proof -
  have "foldl (\<lambda>s (a, b). s + padded g h w (kH div 2) (kW div 2) ! (i + a) ! (j + b) * k ! a ! b) 0
          (List.product [0..<kH] [0..<kW])
        = weighted_sum g h w k kH kW i j"
    unfolding weighted_sum_def
  proof (rule foldl_cong_set)
    fix s c assume "c \<in> set (List.product [0..<kH] [0..<kW])"
    then obtain a b where c: "c = (a, b)" "a < kH" "b < kW" by auto
    have "i + a < h + 2 * (kH div 2)" "j + b < w + 2 * (kW div 2)"
      using ij c by presburger+
    then show "(case c of (a, b) \<Rightarrow> s + padded g h w (kH div 2) (kW div 2) ! (i + a) ! (j + b) * k ! a ! b)
             = (case c of (a, b) \<Rightarrow> s + pad_at g h w (kH div 2) (kW div 2) (i + a) (j + b) * k ! a ! b)"
      by (simp add: c padded_nth)
  qed
  then show ?thesis
    using kernel_sum_Inr[OF padded_size K ij, of g] by simp
qed

text \<open>The grid both strategies return.\<close>

definition convolved ::
  "'a::{zero,plus,times} list list \<Rightarrow> nat \<Rightarrow> nat \<Rightarrow> 'a list list \<Rightarrow> nat \<Rightarrow> nat \<Rightarrow> 'a list list" where
  "convolved g h w k kH kW =
     painted ({0..<h} \<times> {0..<w}) (weighted_sum g h w k kH kW) (make2 h w)"

lemma convolved_size [simp]: "grid_of_size (convolved g h w k kH kW) h w"
  by (simp add: convolved_def)

lemma convolved_nth:
  "i < h \<Longrightarrow> j < w \<Longrightarrow> convolved g h w k kH kW ! i ! j = weighted_sum g h w k kH kW i j"
  by (simp add: convolved_def painted_nth)

lemma index_0_Inr: "xs \<noteq> [] \<Longrightarrow> index xs 0 = Inr (xs ! 0)"
  by (simp add: index_def)

lemma convolve_cells_loop:
  assumes G: "grid_of_size g h w" and K: "grid_of_size k kH kW"
    and cells: "set cells \<subseteq> {0..<h} \<times> {0..<w}"
  shows "for_loop cells (convolve_cell (padded g h w (kH div 2) (kW div 2)) k kH kW) (make2 h w)
           = Inr (painted (set cells) (weighted_sum g h w k kH kW) (make2 h w))"
  unfolding convolve_cell_def
proof (rule write_loop)
  fix i j assume "(i, j) \<in> set cells"
  then have ij: "i < h" "j < w" using cells by auto
  then show "i < length (make2 h w :: 'a list list) \<and> j < length (make2 h w ! i :: 'a list)" by simp
  show "kernel_sum (padded g h w (kH div 2) (kW div 2)) k kH kW i j = Inr (weighted_sum g h w k kH kW i j)"
    by (rule kernel_sum_padded[OF G K ij])
qed

lemma convolve_Inr:
  assumes G: "grid_of_size g h w" and K: "grid_of_size k kH kW"
    and pos: "0 < h" "0 < kH"
  shows "convolve g k = Inr (convolved g h w k kH kW)"
proof -
  have g: "length g = h" "length (g ! 0) = w" "g \<noteq> []"
    using G pos by (auto simp: grid_of_size_nth)
  have k: "length k = kH" "length (k ! 0) = kW" "k \<noteq> []"
    using K pos by (auto simp: grid_of_size_nth)
  have "for_loop [0..<h] (\<lambda>i. for_loop [0..<w] (\<lambda>j.
          convolve_cell (padded g h w (kH div 2) (kW div 2)) k kH kW (i, j))) (make2 h w)
        = Inr (convolved g h w k kH kW)"
    unfolding for_loop_product convolved_def
    using convolve_cells_loop[OF G K, of "List.product [0..<h] [0..<w]"] by simp
  then show ?thesis
    using g k by (simp add: convolve_def index_0_Inr pad_image_Inr[OF G])
qed

section \<open>Row ranges and schedules\<close>

lemma worker_range_fst [simp]: "fst (worker_range h n rpw w) = w * rpw"
  by (simp add: worker_range_def Let_def)

lemma worker_range_snd:
  "snd (worker_range h n rpw w) = (if w = n - 1 then h else (w + 1) * rpw)"
  by (simp add: worker_range_def Let_def)

lemma div_times_le: "(w::nat) < n \<Longrightarrow> w * (h div n) \<le> h"
proof -
  assume "w < n"
  then have "w * (h div n) \<le> n * (h div n)" by (simp add: mult_le_mono1)
  also have "\<dots> \<le> h" by simp
  finally show ?thesis .
qed

lemma worker_range_bounds:
  assumes "w < n"
  shows "fst (worker_range h n (h div n) w) \<le> snd (worker_range h n (h div n) w)"
    and "snd (worker_range h n (h div n) w) \<le> h"
proof -
  have start: "w * (h div n) \<le> h" using assms by (rule div_times_le)
  show "fst (worker_range h n (h div n) w) \<le> snd (worker_range h n (h div n) w)"
  proof (cases "w = n - 1")
    case True
    then show ?thesis using start by (simp add: worker_range_snd)
  next
    case False
    then show ?thesis by (simp add: worker_range_snd)
  qed
  show "snd (worker_range h n (h div n) w) \<le> h"
  proof (cases "w = n - 1")
    case True
    then show ?thesis by (simp add: worker_range_snd)
  next
    case False
    with assms have "Suc w < n" by simp
    then have "Suc w * (h div n) \<le> h" by (rule div_times_le)
    then show ?thesis using False by (simp add: worker_range_snd)
  qed
qed



definition in_range :: "nat \<times> nat \<Rightarrow> nat \<Rightarrow> bool" where
  "in_range = (\<lambda>(startRow, endRow) r. startRow \<le> r \<and> r < endRow)"

lemma in_range_iff: "in_range rg r \<longleftrightarrow> fst rg \<le> r \<and> r < snd rg"
  by (cases rg) (simp add: in_range_def)

lemma worker_range_owner:
  assumes n: "0 < n" and r: "r < h"
  shows "\<exists>w<n. in_range (worker_range h n (h div n) w) r"
proof (cases "r < (n - 1) * (h div n)")
  case True
  then have pos: "0 < h div n" by (cases "h div n") simp_all
  let ?w = "r div (h div n)"
  have w: "?w < n - 1" using True pos by (simp add: less_mult_imp_div_less)
  have "?w * (h div n) \<le> r" by simp
  moreover have "r < (?w + 1) * (h div n)"
    using pos dividend_less_div_times[of "h div n" r] by (simp add: algebra_simps)
  ultimately have "in_range (worker_range h n (h div n) ?w) r"
    using w by (simp add: in_range_iff worker_range_snd)
  then show ?thesis using w by (intro exI[of _ ?w]) simp
next
  case False
  then have "in_range (worker_range h n (h div n) (n - 1)) r"
    using r by (simp add: in_range_iff worker_range_snd)
  then show ?thesis using n by (intro exI[of _ "n - 1"]) simp
qed


lemma set_worker_cells:
  "set (worker_cells w rg) = {(i, j). in_range rg i \<and> j < w}"
  by (cases rg) (auto simp: worker_cells_def in_range_def)

lemma all_worker_cells:
  assumes "0 < n"
  shows "(\<Union>w \<in> {0..<n}. set (worker_cells wd (worker_range h n (h div n) w))) = {0..<h} \<times> {0..<wd}"
proof (rule set_eqI)
  fix c :: "nat \<times> nat"
  obtain i j where c: "c = (i, j)" by (cases c)
  show "c \<in> (\<Union>w \<in> {0..<n}. set (worker_cells wd (worker_range h n (h div n) w)))
          \<longleftrightarrow> c \<in> {0..<h} \<times> {0..<wd}"
  proof
    assume "c \<in> (\<Union>w \<in> {0..<n}. set (worker_cells wd (worker_range h n (h div n) w)))"
    then obtain w where w: "w < n" "in_range (worker_range h n (h div n) w) i" "j < wd"
      by (auto simp: c set_worker_cells)
    from w(2) worker_range_bounds(2)[OF w(1), of h] have "i < h"
      by (simp add: in_range_iff)
    then show "c \<in> {0..<h} \<times> {0..<wd}" using w by (simp add: c)
  next
    assume "c \<in> {0..<h} \<times> {0..<wd}"
    then have "i < h" "j < wd" by (simp_all add: c)
    with worker_range_owner[OF assms, of i h] show
      "c \<in> (\<Union>w \<in> {0..<n}. set (worker_cells wd (worker_range h n (h div n) w)))"
      by (auto simp: c set_worker_cells)
  qed
qed

lemma mset_interleave: "mset (interleave sched progs) = mset (concat progs)"
proof (induction sched arbitrary: progs)
  case Nil
  show ?case by simp
next
  case (Cons w sched)
  show ?case
  proof (cases "w < length progs")
    case False
    then show ?thesis by (simp add: Cons.IH)
  next
    case True
    show ?thesis
    proof (cases "progs ! w")
      case Nil
      then show ?thesis using True by (simp add: Cons.IH)
    next
      case (Cons e es)
      have "progs = take w progs @ (e # es) # drop (Suc w) progs"
        using True Cons by (metis id_take_nth_drop)
      moreover have "progs[w := es] = take w progs @ es # drop (Suc w) progs"
        using True by (simp add: upd_conv_take_nth_drop)
      ultimately have "mset (concat progs) = add_mset e (mset (concat (progs[w := es])))"
        by (metis append_Cons concat.simps(2) concat_append mset.simps(2) union_mset_add_mset_right mset_append)
      then show ?thesis
        using True Cons by (simp add: Cons.IH)
    qed
  qed
qed

lemma set_interleave: "set (interleave sched progs) = set (concat progs)"
  using mset_interleave[of sched progs] by (metis set_mset_mset)

section \<open>The workers' steps\<close>

fun sent :: "step list \<Rightarrow> nat list" where
  "sent [] = []"
| "sent (Cell i j # steps) = sent steps"
| "sent (Send w # steps) = w # sent steps"

lemma set_sent: "set (sent steps) = {w. Send w \<in> set steps}"
  by (induction steps rule: sent.induct) auto

lemma for_loop_id:
  "(\<And>k. k \<in> set ks \<Longrightarrow> body k s = Inr s) \<Longrightarrow> for_loop ks body s = Inr s"
  by (induction ks) simp_all

lemma grid_of_size_update2 [simp]:
  "grid_of_size (g[i := (g ! i)[j := x]]) h w = grid_of_size g h w"
  by (auto simp: grid_of_size_nth)

lemma worker_steps_loop:
  assumes G: "grid_of_size g h w" and K: "grid_of_size k kH kW"
    and R: "grid_of_size r h w"
    and cells: "\<And>i j. Cell i j \<in> set steps \<Longrightarrow> i < h \<and> j < w"
    and sends: "\<And>wk. Send wk \<in> set steps \<Longrightarrow> wk < n"
  shows "for_loop steps
           (worker_step (padded g h w (kH div 2) (kW div 2)) k kH kW h n (h div n)) (r, ch)
         = Inr (painted {(i, j). Cell i j \<in> set steps} (weighted_sum g h w k kH kW) r,
                ch @ map (\<lambda>wk. \<lparr>Result = worker_range h n (h div n) wk, Index = wk\<rparr>) (sent steps))"
  using R cells sends
proof (induction steps arbitrary: r ch)
  case Nil
  show ?case by simp
next
  case (Cons st steps)
  let ?P = "padded g h w (kH div 2) (kW div 2)"
  let ?v = "weighted_sum g h w k kH kW"
  let ?msg = "\<lambda>wk. \<lparr>Result = worker_range h n (h div n) wk, Index = wk\<rparr>"
  note r = grid_of_sizeD[OF Cons.prems(1)]
  show ?case
  proof (cases st)
    case (Cell i j)
    have ij: "i < h" "j < w" using Cons.prems(2)[of i j] Cell by simp_all
    let ?r = "r[i := (r ! i)[j := ?v i j]]"
    have step: "worker_step ?P k kH kW h n (h div n) st (r, ch) = Inr (?r, ch)"
      using ij r by (simp add: worker_step_def Cell convolve_cell_def
          kernel_sum_padded[OF G K ij] store2_Inr)
    have set_eq: "insert (i, j) {(i, j). Cell i j \<in> set steps}
            = {(i, j). Cell i j \<in> set (st # steps)}"
      by (auto simp: Cell)
    have "for_loop (st # steps) (worker_step ?P k kH kW h n (h div n)) (r, ch)
            = for_loop steps (worker_step ?P k kH kW h n (h div n)) (?r, ch)"
      by (simp add: step)
    also have "\<dots> = Inr (painted {(i, j). Cell i j \<in> set steps} ?v ?r, ch @ map ?msg (sent steps))"
      by (rule Cons.IH) (use Cons.prems in auto)
    also have "painted {(i, j). Cell i j \<in> set steps} ?v ?r
            = painted {(i, j). Cell i j \<in> set (st # steps)} ?v r"
      using ij r by (simp only: painted_update set_eq)
    also have "sent steps = sent (st # steps)"
      by (simp add: Cell)
    finally show ?thesis .
  next
    case (Send wk)
    have wk: "wk < n" using Cons.prems(3)[of wk] Send by simp
    obtain lo hi where rg: "worker_range h n (h div n) wk = (lo, hi)"
      by (cases "worker_range h n (h div n) wk")
    have "lo \<le> hi" "hi \<le> h" using worker_range_bounds[OF wk, of h] rg by simp_all
    then have step: "worker_step ?P k kH kW h n (h div n) st (r, ch) = Inr (r, ch @ [?msg wk])"
      using r by (simp add: worker_step_def Send rg)
    have set_eq: "{(i, j). Cell i j \<in> set steps} = {(i, j). Cell i j \<in> set (st # steps)}"
      by (auto simp: Send)
    have "for_loop (st # steps) (worker_step ?P k kH kW h n (h div n)) (r, ch)
            = for_loop steps (worker_step ?P k kH kW h n (h div n)) (r, ch @ [?msg wk])"
      by (simp add: step)
    also have "\<dots> = Inr (painted {(i, j). Cell i j \<in> set steps} ?v r,
                          (ch @ [?msg wk]) @ map ?msg (sent steps))"
      by (rule Cons.IH) (use Cons.prems in auto)
    also have "(ch @ [?msg wk]) @ map ?msg (sent steps) = ch @ map ?msg (sent (st # steps))"
      by (simp add: Send)
    finally show ?thesis by (simp only: set_eq)
  qed
qed

lemma go_copy_window:
  assumes "lo \<le> hi" "hi \<le> length xs"
  shows "take lo xs @ go_copy (drop lo xs) (take (hi - lo) (drop lo xs)) = xs"
proof -
  have "min (length xs - lo) (min (length xs - lo) (hi - lo)) = hi - lo"
    using assms by simp
  then have "go_copy (drop lo xs) (take (hi - lo) (drop lo xs))
          = take (hi - lo) (drop lo xs) @ drop (hi - lo) (drop lo xs)"
    by (simp add: go_copy_def Let_def)
  moreover have "take (hi - lo) (drop lo xs) @ drop (hi - lo) (drop lo xs) = drop lo xs"
    by (rule append_take_drop_id)
  ultimately show ?thesis by (simp only: append_take_drop_id)
qed

lemma receive_id:
  assumes "wk < n" "length r = h"
  shows "receive (h div n) \<lparr>Result = worker_range h n (h div n) wk, Index = wk\<rparr> r = Inr r"
proof -
  obtain lo hi where rg: "worker_range h n (h div n) wk = (lo, hi)"
    by (cases "worker_range h n (h div n) wk")
  have lo: "lo = wk * (h div n)" using rg worker_range_fst[of h n "h div n" wk] by simp
  have b: "lo \<le> hi" "hi \<le> length r" using worker_range_bounds[OF assms(1), of h] rg assms(2) by simp_all
  then have "lo \<le> length r" by simp
  then show ?thesis
    using go_copy_window[OF b] by (simp add: receive_def rg lo[symmetric])
qed

lemma worker_steps_cells:
  "Cell i j \<in> set (worker_steps h w n rpw wk) \<longleftrightarrow> (i, j) \<in> set (worker_cells w (worker_range h n rpw wk))"
  by (auto simp: worker_steps_def)

lemma worker_steps_sends:
  "Send v \<in> set (worker_steps h w n rpw wk) \<longleftrightarrow> v = wk"
  by (auto simp: worker_steps_def)

lemma convolveParallel_Inr:
  assumes G: "grid_of_size g h w" and K: "grid_of_size k kH kW"
    and pos: "0 < h" "0 < kH" and N: "0 < numWorkers"
  shows "convolveParallel g k numWorkers sched = Inr (convolved g h w k kH kW)"
proof -
  define n where "n = nat numWorkers"
  have n: "0 < n" using N by (simp add: n_def)
  define workers where "workers = map (worker_steps h w n (h div n)) [0..<n]"
  define steps where "steps = interleave sched workers"
  let ?msg = "\<lambda>wk. \<lparr>Result = worker_range h n (h div n) wk, Index = wk\<rparr>"
  have g: "length g = h" "length (g ! 0) = w" "g \<noteq> []"
    using G pos by (auto simp: grid_of_size_nth)
  have k: "length k = kH" "length (k ! 0) = kW" "k \<noteq> []"
    using K pos by (auto simp: grid_of_size_nth)
  have set_steps: "set steps = (\<Union>wk \<in> {0..<n}. set (worker_steps h w n (h div n) wk))"
    by (simp add: steps_def set_interleave workers_def)
  have cells_eq: "{(i, j). Cell i j \<in> set steps} = {0..<h} \<times> {0..<w}"
    unfolding set_steps all_worker_cells[OF n, of w h, symmetric]
    by (auto simp: worker_steps_cells)
  have cells: "i < h \<and> j < w" if "Cell i j \<in> set steps" for i j
  proof -
    have "(i, j) \<in> {(i, j). Cell i j \<in> set steps}" using that by simp
    then show ?thesis unfolding cells_eq by simp
  qed
  have sends: "wk < n" if "Send wk \<in> set steps" for wk
    using that by (auto simp: set_steps worker_steps_sends)
  have run: "for_loop steps
           (worker_step (padded g h w (kH div 2) (kW div 2)) k kH kW h n (h div n)) (make2 h w, [])
         = Inr (convolved g h w k kH kW, map ?msg (sent steps))"
    using worker_steps_loop[OF G K grid_of_size_make2 cells sends, of steps "[]"]
    by (simp add: cells_eq convolved_def)
  have recv: "for_loop (map ?msg (sent steps)) (receive (h div n)) (convolved g h w k kH kW)
         = Inr (convolved g h w k kH kW)"
  proof (rule for_loop_id)
    fix m assume "m \<in> set (map ?msg (sent steps))"
    then obtain wk where "m = ?msg wk" "wk < n"
      using sends by (auto simp: set_sent)
    then show "receive (h div n) m (convolved g h w k kH kW) = Inr (convolved g h w k kH kW)"
      using receive_id[of wk n "convolved g h w k kH kW" h] by (simp add: grid_of_sizeD[OF convolved_size])
  qed
  show ?thesis
    using g k N run recv
    by (simp add: convolveParallel_def index_0_Inr pad_image_Inr[OF G] Let_def
        n_def[symmetric] workers_def[symmetric] steps_def[symmetric])
qed

section \<open>Convolution: the claims\<close>

text \<open>
  C1. For a rectangular grid with at least one row and one column, a rectangular kernel
  with at least one row and one column (the odd sizes among them) and every worker count
  \<open>numWorkers \<ge> 1\<close> (whether or not it divides the height, and above the height too),
  convolveParallel returns, under every schedule of its workers, exactly what convolve
  returns: the same grid, cell for cell. The sample type is arbitrary, so the equality
  is one of the values the operations produce, whatever their rounding.
\<close>

theorem parallel_equals_sequential:
  assumes "grid_of_size g h w" and "1 \<le> h" and "1 \<le> w"
    and "grid_of_size k kH kW" and "1 \<le> kH" and "1 \<le> kW"
    and "1 \<le> numWorkers"
  shows "convolveParallel g k numWorkers sched = convolve g k"
proof -
  have "convolveParallel g k numWorkers sched = Inr (convolved g h w k kH kW)"
    using assms by (intro convolveParallel_Inr) simp_all
  moreover have "convolve g k = Inr (convolved g h w k kH kW)"
    using assms by (intro convolve_Inr) simp_all
  ultimately show ?thesis by simp
qed

theorem parallel_equals_sequential_witness:
  "grid_of_size [[1, 2, 3], [4, 5, 6], [7, 8, 9 :: int]] 3 3
   \<and> grid_of_size [[-1, 0, 1], [-2, 0, 2], [-1, 0, 1 :: int]] 3 3
   \<and> convolveParallel [[1, 2, 3], [4, 5, 6], [7, 8, 9 :: int]] [[-1, 0, 1], [-2, 0, 2], [-1, 0, 1]] 5
        [4, 4, 0, 4, 2, 4] = convolve [[1, 2, 3], [4, 5, 6], [7, 8, 9]] [[-1, 0, 1], [-2, 0, 2], [-1, 0, 1]]
   \<and> convolve [[1, 2, 3], [4, 5, 6], [7, 8, 9 :: int]] [[-1, 0, 1], [-2, 0, 2], [-1, 0, 1]]
       = Inr [[9, 6, -9], [20, 8, -20], [21, 6, -21]]"
proof -
  have g: "grid_of_size [[1, 2, 3], [4, 5, 6], [7, 8, 9 :: int]] 3 3"
    and k: "grid_of_size [[-1, 0, 1], [-2, 0, 2], [-1, 0, 1 :: int]] 3 3"
    by (simp_all add: grid_of_size_def)
  have v: "convolve [[1, 2, 3], [4, 5, 6], [7, 8, 9 :: int]] [[-1, 0, 1], [-2, 0, 2], [-1, 0, 1]]
       = Inr [[9, 6, -9], [20, 8, -20], [21, 6, -21]]"
    by code_simp
  show ?thesis
    using g k v parallel_equals_sequential[OF g _ _ k, of 5 "[4, 4, 0, 4, 2, 4]"] by simp
qed

text \<open>
  The record of the writes: what a list of steps, each paired with its worker, adds to
  it, and the lists of the workers' steps so paired.
\<close>

fun writes :: "(nat \<times> step) list \<Rightarrow> (nat \<times> nat \<times> nat) list" where
  "writes [] = []"
| "writes ((w, Cell i j) # ts) = (w, i, j) # writes ts"
| "writes ((w, Send v) # ts) = writes ts"



lemma worker_step_log_Cell:
  "worker_step_log P k kH kW h n rpw (w, Cell i j) (s, written)
   = and_then (worker_step P k kH kW h n rpw (Cell i j) s) (\<lambda>s'. Inr (s', written @ [(w, i, j)]))"
  by (simp add: worker_step_log_def)

lemma worker_step_log_Send:
  "worker_step_log P k kH kW h n rpw (w, Send v) (s, written)
   = and_then (worker_step P k kH kW h n rpw (Send v) s) (\<lambda>s'. Inr (s', written))"
  by (simp add: worker_step_log_def)

lemma for_loop_log:
  "for_loop ts (worker_step_log P k kH kW h n rpw) (s, written)
   = and_then (for_loop (map snd ts) (worker_step P k kH kW h n rpw) s)
       (\<lambda>s'. Inr (s', written @ writes ts))"
proof (induction ts arbitrary: s written rule: writes.induct)
  case 1
  show ?case by (simp add: and_then_def)
next
  case (2 w i j ts)
  show ?case
    by (cases "worker_step P k kH kW h n rpw (Cell i j) s")
       (simp_all add: worker_step_log_Cell and_then_def 2)
next
  case (3 w v ts)
  show ?case
    by (cases "worker_step P k kH kW h n rpw (Send v) s")
       (simp_all add: worker_step_log_Send and_then_def 3)
qed

lemma interleave_map: "interleave sched (map (map f) progs) = map f (interleave sched progs)"
proof (induction sched arbitrary: progs)
  case Nil
  show ?case by (simp add: map_concat)
next
  case (Cons w sched)
  show ?case
  proof (cases "w < length progs")
    case False
    then show ?thesis by (simp add: Cons)
  next
    case True
    show ?thesis
    proof (cases "progs ! w")
      case Nil
      then show ?thesis using True by (simp add: Cons)
    next
      case (Cons e es)
      have "interleave sched ((map (map f) progs)[w := map f es])
              = map f (interleave sched (progs[w := es]))"
        using Cons.IH[of "progs[w := es]"] by (simp add: map_update)
      then show ?thesis using True Cons by simp
    qed
  qed
qed

lemma untag_workers:
  "map (map snd) (map (\<lambda>w. map (Pair w) (P w)) ws) = map P ws"
  by (simp add: comp_def)

definition tagged_workers :: "nat \<Rightarrow> nat \<Rightarrow> nat \<Rightarrow> (nat \<times> step) list list" where
  "tagged_workers h w n = map (\<lambda>wk. map (Pair wk) (worker_steps h w n (h div n) wk)) [0..<n]"

lemma convolveParallel_log_eq:
  "convolveParallel_log g k numWorkers sched
   = and_then (convolveParallel g k numWorkers sched) (\<lambda>r.
       Inr (r, writes (interleave sched (tagged_workers (length g) (length (g ! 0)) (nat numWorkers)))))"
proof (cases "index g 0")
  case (Inl e)
  then show ?thesis by (simp add: convolveParallel_log_def convolveParallel_def and_then_def)
next
  case g0: (Inr g0)
  then have g0_eq: "g0 = g ! 0" by (simp add: index_def split: if_splits)
  show ?thesis
  proof (cases "index k 0")
    case (Inl e)
    then show ?thesis
      using g0 by (simp add: convolveParallel_log_def convolveParallel_def and_then_def)
  next
    case k0: (Inr k0)
    show ?thesis
    proof (cases "pad_image g (length g) (length g0) (length k div 2) (length k0 div 2)")
      case (Inl e)
      then show ?thesis
        using g0 k0 by (simp add: convolveParallel_log_def convolveParallel_def and_then_def Let_def)
    next
      case (Inr p)
      obtain g' P where p: "p = (g', P)" by (cases p)
      show ?thesis
      proof (cases "numWorkers = 0")
        case True
        then show ?thesis
          using g0 k0 Inr p
          by (simp add: convolveParallel_log_def convolveParallel_def and_then_def Let_def)
      next
        case False
        define n where "n = nat numWorkers"
        define rpw where "rpw = length g div n"
        define tagged where "tagged = tagged_workers (length g) (length g0) n"
        define workers where "workers = map (worker_steps (length g) (length g0) n rpw) [0..<n]"
        have untag: "map snd (interleave sched tagged) = interleave sched workers"
          unfolding tagged_def tagged_workers_def workers_def rpw_def
            interleave_map[symmetric] untag_workers ..
        define run where "run = for_loop (interleave sched workers)
            (worker_step P k (length k) (length k0) (length g) n rpw)
            (make2 (length g) (length g0), [])"
        have L: "convolveParallel_log g k numWorkers sched
            = and_then (for_loop (interleave sched tagged)
                  (worker_step_log P k (length k) (length k0) (length g) n rpw)
                  ((make2 (length g) (length g0), []), []))
                (\<lambda>((result, resultCh), written).
                   and_then (for_loop resultCh (receive rpw) result) (\<lambda>result'.
                   Inr (result', written)))"
          using g0 k0 Inr p False
          by (simp add: convolveParallel_log_def and_then_def Let_def n_def rpw_def tagged_def
              tagged_workers_def)
        have R: "convolveParallel g k numWorkers sched
            = and_then run (\<lambda>(result, resultCh). for_loop resultCh (receive rpw) result)"
          using g0 k0 Inr p False
          by (simp add: convolveParallel_def and_then_def Let_def n_def rpw_def workers_def run_def)
        have loop: "for_loop (interleave sched tagged)
                  (worker_step_log P k (length k) (length k0) (length g) n rpw)
                  ((make2 (length g) (length g0), []), [])
              = and_then run (\<lambda>s'. Inr (s', writes (interleave sched tagged)))"
          by (simp add: for_loop_log untag run_def)
        have T: "tagged_workers (length g) (length (g ! 0)) (nat numWorkers) = tagged"
          by (simp add: tagged_def n_def g0_eq)
        show ?thesis
        proof (cases run)
          case (Inl e)
          then show ?thesis by (simp add: L R loop and_then_def)
        next
          case (Inr s)
          obtain result resultCh where s: "s = (result, resultCh)" by (cases s)
          show ?thesis
            by (cases "for_loop resultCh (receive rpw) result")
               (simp_all add: L R loop Inr s T and_then_def)
        qed
      qed
    qed
  qed
qed

lemma convolveParallel_log_result:
  "map_sum id fst (convolveParallel_log g k numWorkers sched) = convolveParallel g k numWorkers sched"
  by (cases "convolveParallel g k numWorkers sched")
     (simp_all add: convolveParallel_log_eq and_then_def)













text \<open>
  C3. For a grid of \<open>h\<close> by \<open>w\<close> samples and a kernel of \<open>kH\<close> by \<open>kW\<close> weights (all at
  least 1; the odd kernel sizes among them), convolve returns a grid of the same size
  whose cell \<open>(i, j)\<close> is the sum over \<open>a < kH\<close>, \<open>b < kW\<close>, accumulated from \<open>0.0\<close> in
  row-major order, of \<open>P(i + a, j + b) * K(a, b)\<close>, where \<open>P\<close> is the grid padded with
  zeros by \<open>kH div 2\<close> rows and \<open>kW div 2\<close> columns on every side. The kernel is not
  flipped, and the sum is stored as it is: nothing clamps or rounds it.
\<close>

theorem convolve_contract:
  assumes "grid_of_size g h w" and "1 \<le> h" and "1 \<le> w"
    and "grid_of_size k kH kW" and "1 \<le> kH" and "1 \<le> kW"
  shows "\<exists>r. convolve g k = Inr r \<and> grid_of_size r h w
           \<and> (\<forall>i<h. \<forall>j<w. r ! i ! j = weighted_sum g h w k kH kW i j)"
proof -
  have "convolve g k = Inr (convolved g h w k kH kW)"
    using assms by (intro convolve_Inr) simp_all
  then show ?thesis
    by (simp add: convolved_nth)
qed

theorem convolve_contract_witness:
  "grid_of_size [[Finite 0, Finite 0, Finite 0], [Finite 0, Finite 1, Finite 0],
                 [Finite 0, Finite 0, Finite 0]] 3 3
   \<and> grid_of_size sobelX 3 3
   \<and> (\<exists>r. convolve [[Finite 0, Finite 0, Finite 0], [Finite 0, Finite 1, Finite 0],
                       [Finite 0, Finite 0, Finite 0]] sobelX = Inr r
          \<and> r ! 1 ! 1 = Finite 0 \<and> r ! 1 ! 0 = Finite 2 \<and> r ! 1 ! 2 = Finite (- 2))"
proof -
  let ?g = "[[Finite 0, Finite 0, Finite 0], [Finite 0, Finite 1, Finite 0],
             [Finite 0, Finite 0, Finite 0]]"
  have g: "grid_of_size ?g 3 3" and k: "grid_of_size sobelX 3 3"
    by (simp_all add: grid_of_size_def sobelX_def)
  from convolve_contract[OF g _ _ k] obtain r where
    r: "convolve ?g sobelX = Inr r" "\<forall>i<3. \<forall>j<3. r ! i ! j = weighted_sum ?g 3 3 sobelX 3 3 i j"
    by auto
  have "weighted_sum ?g 3 3 sobelX 3 3 1 1 = Finite 0" "weighted_sum ?g 3 3 sobelX 3 3 1 0 = Finite 2"
    "weighted_sum ?g 3 3 sobelX 3 3 1 2 = Finite (- 2)"
    by (simp_all add: weighted_sum_def pad_at_def sobelX_def float_eval upt_rec)
  with r have "r ! 1 ! 1 = Finite 0 \<and> r ! 1 ! 0 = Finite 2 \<and> r ! 1 ! 2 = Finite (- 2)" by simp
  with r(1) g k show ?thesis by blast
qed

text \<open>
  C6. For a grid of \<open>h\<close> by \<open>w\<close> samples and any half-extents \<open>padH\<close>, \<open>padW\<close> (those of a
  kernel, \<open>kH div 2\<close> and \<open>kW div 2\<close>, among them), the padding loops end without a panic
  with a buffer of \<open>h + 2 * padH\<close> by \<open>w + 2 * padW\<close> samples in which cell
  \<open>(i + padH, j + padW)\<close> holds \<open>g(i, j)\<close> and every other cell holds zero; the grid read
  is left as it was.
\<close>

theorem padding_contract:
  assumes "grid_of_size g h w"
  shows "\<exists>p. pad_image g h w padH padW = Inr (g, p)
           \<and> grid_of_size p (h + 2 * padH) (w + 2 * padW)
           \<and> (\<forall>i<h. \<forall>j<w. p ! (i + padH) ! (j + padW) = g ! i ! j)
           \<and> (\<forall>r<h + 2 * padH. \<forall>c<w + 2 * padW.
                \<not> (padH \<le> r \<and> r < padH + h \<and> padW \<le> c \<and> c < padW + w) \<longrightarrow> p ! r ! c = 0)"
proof -
  let ?p = "padded g h w padH padW"
  have "pad_image g h w padH padW = Inr (g, ?p)"
    using assms by (rule pad_image_Inr)
  moreover have "grid_of_size ?p (h + 2 * padH) (w + 2 * padW)"
    by (rule padded_size)
  moreover have "\<forall>i<h. \<forall>j<w. ?p ! (i + padH) ! (j + padW) = g ! i ! j"
    by (simp add: padded_nth pad_at_def)
  moreover have "\<forall>r<h + 2 * padH. \<forall>c<w + 2 * padW.
                \<not> (padH \<le> r \<and> r < padH + h \<and> padW \<le> c \<and> c < padW + w) \<longrightarrow> ?p ! r ! c = 0"
    by (simp add: padded_nth pad_at_def)
  ultimately show ?thesis by blast
qed

theorem padding_contract_witness:
  "grid_of_size [[1, 2], [3, 4 :: int]] 2 2
   \<and> (\<exists>p. pad_image [[1, 2], [3, 4 :: int]] 2 2 (3 div 2) (3 div 2) = Inr ([[1, 2], [3, 4]], p)
          \<and> grid_of_size p 4 4 \<and> p ! 1 ! 1 = 1 \<and> p ! 2 ! 1 = 3 \<and> p ! 0 ! 3 = 0 \<and> p ! 3 ! 2 = 0)"
proof -
  let ?g = "[[1, 2], [3, 4 :: int]]"
  have g: "grid_of_size ?g 2 2" by (simp add: grid_of_size_def)
  from padding_contract[OF g, of 1 1] obtain p where
    p: "pad_image ?g 2 2 1 1 = Inr (?g, p)" "grid_of_size p (2 + 2 * 1) (2 + 2 * 1)"
      "\<forall>i<2. \<forall>j<2. p ! (i + 1) ! (j + 1) = ?g ! i ! j"
      "\<forall>r<2 + 2 * 1. \<forall>c<2 + 2 * 1.
          \<not> (1 \<le> r \<and> r < 1 + 2 \<and> 1 \<le> c \<and> c < 1 + 2) \<longrightarrow> p ! r ! c = 0"
    by blast
  from p(3) have "p ! (0 + 1) ! (0 + 1) = ?g ! 0 ! 0" "p ! (1 + 1) ! (0 + 1) = ?g ! 1 ! 0"
    by simp_all
  then have a: "p ! 1 ! 1 = 1" "p ! 2 ! 1 = 3" by (simp_all add: numeral_2_eq_2)
  from p(4) have b: "p ! 0 ! 3 = 0" "p ! 3 ! 2 = 0" by simp_all
  from p(2) have c: "grid_of_size p 4 4" by simp
  from p(1) a b c g show ?thesis by auto
qed

lemma interleave_no_workers [simp]: "interleave sched [] = []"
  by (induction sched) simp_all

lemma convolveParallel_zero_workers:
  assumes G: "grid_of_size g h w" and pos: "0 < h" "k \<noteq> []"
  shows "convolveParallel g k 0 sched = Inl DivideByZero"
proof -
  have g: "length g = h" "length (g ! 0) = w" "g \<noteq> []"
    using G pos by (auto simp: grid_of_size_nth)
  show ?thesis
    using g pos by (simp add: convolveParallel_def index_0_Inr pad_image_Inr[OF G])
qed

lemma convolveParallel_negative_workers:
  assumes G: "grid_of_size g h w" and pos: "0 < h" "k \<noteq> []" and N: "numWorkers < 0"
  shows "convolveParallel g k numWorkers sched = Inr (make2 h w)"
proof -
  have g: "length g = h" "length (g ! 0) = w" "g \<noteq> []"
    using G pos by (auto simp: grid_of_size_nth)
  show ?thesis
    using g pos N by (simp add: convolveParallel_def index_0_Inr pad_image_Inr[OF G])
qed

text \<open>
  C10. For a rectangular grid and kernel with at least one row and one column each,
  convolveParallel returns a grid for every \<open>numWorkers \<ge> 1\<close> and every schedule: no
  index or slice bound is out of range and the division is defined. With
  \<open>numWorkers = 0\<close> the division \<open>height / numWorkers\<close> panics. (With a negative
  \<open>numWorkers\<close> no worker is started and the zero grid is returned.)
\<close>

theorem convolveParallel_worker_count:
  assumes "grid_of_size g h w" and "1 \<le> h" and "1 \<le> w"
    and "grid_of_size k kH kW" and "1 \<le> kH" and "1 \<le> kW"
  shows "(1 \<le> numWorkers \<longrightarrow> (\<exists>r. convolveParallel g k numWorkers sched = Inr r))
       \<and> convolveParallel g k 0 sched = Inl DivideByZero
       \<and> (numWorkers < 0 \<longrightarrow> convolveParallel g k numWorkers sched = Inr (make2 h w))"
proof -
  have k: "k \<noteq> []" using assms(4,5) by (auto simp: grid_of_size_def)
  have "1 \<le> numWorkers \<longrightarrow> (\<exists>r. convolveParallel g k numWorkers sched = Inr r)"
  proof
    assume "1 \<le> numWorkers"
    then have "convolveParallel g k numWorkers sched = Inr (convolved g h w k kH kW)"
      using assms by (intro convolveParallel_Inr) simp_all
    then show "\<exists>r. convolveParallel g k numWorkers sched = Inr r" by simp
  qed
  moreover have "convolveParallel g k 0 sched = Inl DivideByZero"
    using assms k by (intro convolveParallel_zero_workers[of g h w]) simp_all
  moreover have "numWorkers < 0 \<longrightarrow> convolveParallel g k numWorkers sched = Inr (make2 h w)"
    using assms k convolveParallel_negative_workers[of g h w k numWorkers sched] by simp
  ultimately show ?thesis by blast
qed

theorem convolveParallel_worker_count_witness:
  "grid_of_size [[1, 2], [3, 4 :: int]] 2 2 \<and> grid_of_size [[1 :: int]] 1 1
   \<and> (\<exists>r. convolveParallel [[1, 2], [3, 4 :: int]] [[1]] 3 [2, 0, 1, 2] = Inr r)
   \<and> convolveParallel [[1, 2], [3, 4 :: int]] [[1]] 0 [2, 0, 1, 2] = Inl DivideByZero"
proof -
  have g: "grid_of_size [[1, 2], [3, 4 :: int]] 2 2" and k: "grid_of_size [[1 :: int]] 1 1"
    by (simp_all add: grid_of_size_def)
  from convolveParallel_worker_count[OF g _ _ k, of 3 "[2, 0, 1, 2]"] g k
  show ?thesis by simp
qed

section \<open>The combiner\<close>

subsection \<open>The scan for the least and the greatest value\<close>

definition scan_step :: "float64 \<times> float64 \<Rightarrow> float64 \<Rightarrow> float64 \<times> float64" where
  "scan_step = (\<lambda>(minValue, maxValue) e.
     (if e < minValue then e else minValue, if e > maxValue then e else maxValue))"

lemma scan_least:
  assumes "\<forall>x \<in> set xs. x \<noteq> NaN" "mn \<noteq> NaN"
  shows "fst (foldl scan_step (mn, mx) xs) \<in> insert mn (set xs)
       \<and> fst (foldl scan_step (mn, mx) xs) \<le> mn
       \<and> (\<forall>x \<in> set xs. fst (foldl scan_step (mn, mx) xs) \<le> x)"
  using assms
proof (induction xs arbitrary: mn mx)
  case Nil
  then show ?case by (simp add: float64_le_refl)
next
  case (Cons x xs)
  let ?mn = "if x < mn then x else mn"
  let ?mx = "if x > mx then x else mx"
  have x: "x \<noteq> NaN" using Cons.prems by simp
  have mn': "?mn \<noteq> NaN" using x Cons.prems by simp
  have le: "?mn \<le> mn" "?mn \<le> x"
    using x Cons.prems by (auto simp: float64_less_imp_le float64_le_refl float64_not_less)
  have IH: "fst (foldl scan_step (?mn, ?mx) xs) \<in> insert ?mn (set xs)
       \<and> fst (foldl scan_step (?mn, ?mx) xs) \<le> ?mn
       \<and> (\<forall>y \<in> set xs. fst (foldl scan_step (?mn, ?mx) xs) \<le> y)"
    by (rule Cons.IH) (use Cons.prems mn' in auto)
  have step: "foldl scan_step (mn, mx) (x # xs) = foldl scan_step (?mn, ?mx) xs"
    by (simp add: scan_step_def)
  from IH le show ?case
    unfolding step by (auto intro: float64_le_trans)
qed

lemma scan_greatest:
  assumes "\<forall>x \<in> set xs. x \<noteq> NaN" "mx \<noteq> NaN"
  shows "snd (foldl scan_step (mn, mx) xs) \<in> insert mx (set xs)
       \<and> mx \<le> snd (foldl scan_step (mn, mx) xs)
       \<and> (\<forall>x \<in> set xs. x \<le> snd (foldl scan_step (mn, mx) xs))"
  using assms
proof (induction xs arbitrary: mn mx)
  case Nil
  then show ?case by (simp add: float64_le_refl)
next
  case (Cons x xs)
  let ?mn = "if x < mn then x else mn"
  let ?mx = "if x > mx then x else mx"
  have x: "x \<noteq> NaN" using Cons.prems by simp
  have mx': "?mx \<noteq> NaN" using x Cons.prems by simp
  have le: "mx \<le> ?mx" "x \<le> ?mx"
    using x Cons.prems by (auto simp: float64_less_imp_le float64_le_refl float64_not_less)
  have IH: "snd (foldl scan_step (?mn, ?mx) xs) \<in> insert ?mx (set xs)
       \<and> ?mx \<le> snd (foldl scan_step (?mn, ?mx) xs)
       \<and> (\<forall>y \<in> set xs. y \<le> snd (foldl scan_step (?mn, ?mx) xs))"
    by (rule Cons.IH) (use Cons.prems mx' in auto)
  have step: "foldl scan_step (mn, mx) (x # xs) = foldl scan_step (?mn, ?mx) xs"
    by (simp add: scan_step_def)
  from IH le show ?case
    unfolding step by (auto intro: float64_le_trans)
qed

subsection \<open>Loops that update cells in place\<close>

lemma map_loop:
  assumes "\<And>i j. (i, j) \<in> set cells \<Longrightarrow> i < length g \<and> j < length (g ! i)"
    and "distinct cells"
  shows "for_loop cells (\<lambda>(i, j) r. and_then (index2 r i j) (\<lambda>e. store2 r i j (f e))) g
           = Inr (painted (set cells) (\<lambda>i j. f (g ! i ! j)) g)"
  using assms
proof (induction cells arbitrary: g)
  case Nil
  show ?case by simp
next
  case (Cons c cells)
  obtain i j where c: "c = (i, j)" by (cases c)
  let ?g = "g[i := (g ! i)[j := f (g ! i ! j)]]"
  have ij: "i < length g" "j < length (g ! i)" using Cons.prems(1)[of i j] c by simp_all
  have notin: "(i, j) \<notin> set cells" and dist: "distinct cells"
    using Cons.prems(2) c by simp_all
  have bounds: "a < length g \<and> b < length (g ! a)" if "(a, b) \<in> set cells" for a b
    using Cons.prems(1)[of a b] that by simp
  have same: "?g ! a ! b = g ! a ! b" if "(a, b) \<in> set cells" for a b
  proof -
    have "(a, b) \<noteq> (i, j)" using that notin by auto
    then show ?thesis using bounds[OF that] ij by (auto simp: nth_list_update)
  qed
  have "for_loop cells (\<lambda>(i, j) r. and_then (index2 r i j) (\<lambda>e. store2 r i j (f e))) ?g
          = Inr (painted (set cells) (\<lambda>i j. f (?g ! i ! j)) ?g)"
    by (rule Cons.IH) (use bounds dist in auto)
  moreover have "painted (set cells) (\<lambda>i j. f (?g ! i ! j)) ?g
          = painted (insert (i, j) (set cells)) (\<lambda>i j. f (g ! i ! j)) g"
  proof (rule nth_equalityI)
    show "length (painted (set cells) (\<lambda>i j. f (?g ! i ! j)) ?g)
            = length (painted (insert (i, j) (set cells)) (\<lambda>i j. f (g ! i ! j)) g)"
      by simp
  next
    fix a assume "a < length (painted (set cells) (\<lambda>i j. f (?g ! i ! j)) ?g)"
    then have a: "a < length g" by simp
    show "painted (set cells) (\<lambda>i j. f (?g ! i ! j)) ?g ! a
            = painted (insert (i, j) (set cells)) (\<lambda>i j. f (g ! i ! j)) g ! a"
    proof (rule nth_equalityI)
      show "length (painted (set cells) (\<lambda>i j. f (?g ! i ! j)) ?g ! a)
              = length (painted (insert (i, j) (set cells)) (\<lambda>i j. f (g ! i ! j)) g ! a)"
        using a by simp
    next
      fix b assume "b < length (painted (set cells) (\<lambda>i j. f (?g ! i ! j)) ?g ! a)"
      then have b: "b < length (g ! a)" using a by simp
      show "painted (set cells) (\<lambda>i j. f (?g ! i ! j)) ?g ! a ! b
              = painted (insert (i, j) (set cells)) (\<lambda>i j. f (g ! i ! j)) g ! a ! b"
      proof (cases "(a, b) \<in> set cells")
        case True
        then show ?thesis using a b same[OF True] by (simp add: painted_nth)
      next
        case False
        then show ?thesis using a b ij notin by (auto simp: painted_nth nth_list_update)
      qed
    qed
  qed
  ultimately show ?case
    using ij by (simp add: c index2_Inr store2_Inr)
qed

lemma for_loop_frame3:
  "for_loop ks (\<lambda>k (a, b, c). and_then (body a b k c) (\<lambda>c'. Inr (a, b, c'))) (a, b, c)
     = and_then (for_loop ks (body a b) c) (\<lambda>c'. Inr (a, b, c'))"
proof (induction ks arbitrary: c)
  case Nil
  show ?case by simp
next
  case (Cons k ks)
  show ?case by (cases "body a b k c") (simp_all add: Cons.IH)
qed

definition magnitudes :: "float64 list list \<Rightarrow> float64 list list \<Rightarrow> nat \<Rightarrow> nat \<Rightarrow> float64 list list" where
  "magnitudes gx gy h w =
     painted ({0..<h} \<times> {0..<w}) (\<lambda>i j. magnitude (gx ! i ! j) (gy ! i ! j)) (make2 h w)"

lemma magnitudes_size [simp]: "grid_of_size (magnitudes gx gy h w) h w"
  by (simp add: magnitudes_def)

lemma magnitudes_nth:
  "i < h \<Longrightarrow> j < w \<Longrightarrow> magnitudes gx gy h w ! i ! j = magnitude (gx ! i ! j) (gy ! i ! j)"
  by (simp add: magnitudes_def painted_nth)

lemma magnitude_loop:
  assumes GX: "grid_of_size gx h w" and GY: "grid_of_size gy h w"
  shows "for_loop [0..<h] (\<lambda>i.
           for_loop [0..<w] (\<lambda>j (gradientX, gradientY, edges).
             and_then (index2 gradientX i j) (\<lambda>x.
             and_then (index2 gradientY i j) (\<lambda>y.
             and_then (store2 edges i j (magnitude x y)) (\<lambda>edges'.
             Inr (gradientX, gradientY, edges'))))))
           (gx, gy, make2 h w)
         = Inr (gx, gy, magnitudes gx gy h w)"
proof -
  let ?cells = "List.product [0..<h] [0..<w]"
  let ?body = "\<lambda>(i, j) (gradientX, gradientY, edges).
             and_then (index2 gradientX i j) (\<lambda>x.
             and_then (index2 gradientY i j) (\<lambda>y.
             and_then (store2 edges i j (magnitude x y)) (\<lambda>edges'.
             Inr (gradientX, gradientY, edges'))))"
  let ?inner = "\<lambda>a b (i, j) c.
             and_then (index2 a i j) (\<lambda>x.
             and_then (index2 b i j) (\<lambda>y. store2 c i j (magnitude x y)))"
  let ?val = "\<lambda>i j. and_then (index2 gx i j) (\<lambda>x.
             and_then (index2 gy i j) (\<lambda>y. Inr (magnitude x y)))"
  have "for_loop [0..<h] (\<lambda>i. for_loop [0..<w] (\<lambda>j. ?body (i, j))) (gx, gy, make2 h w)
          = for_loop ?cells ?body (gx, gy, make2 h w)"
    by (rule for_loop_product)
  also have "\<dots> = for_loop ?cells (\<lambda>k (a, b, c). and_then (?inner a b k c) (\<lambda>c'. Inr (a, b, c')))
                     (gx, gy, make2 h w)"
    by (rule for_loop_cong) (auto simp: and_then_assoc)
  also have "\<dots> = and_then (for_loop ?cells (?inner gx gy) (make2 h w)) (\<lambda>c'. Inr (gx, gy, c'))"
    by (rule for_loop_frame3)
  also have "for_loop ?cells (?inner gx gy) (make2 h w)
          = for_loop ?cells (\<lambda>(i, j) r. and_then (?val i j) (\<lambda>x. store2 r i j x)) (make2 h w)"
    by (rule for_loop_cong) (auto simp: and_then_assoc)
  also have "\<dots> = Inr (painted (set ?cells) (\<lambda>i j. magnitude (gx ! i ! j) (gy ! i ! j)) (make2 h w))"
  proof (rule write_loop)
    fix i j assume "(i, j) \<in> set ?cells"
    then have ij: "i < h" "j < w" by simp_all
    then show "i < length (make2 h w :: float64 list list) \<and> j < length (make2 h w ! i :: float64 list)"
      by simp
    show "?val i j = Inr (magnitude (gx ! i ! j) (gy ! i ! j))"
      using ij GX GY by (simp add: index2_Inr grid_of_sizeD)
  qed
  finally show ?thesis
    by (simp add: magnitudes_def)
qed

lemma scan_loop:
  assumes E: "grid_of_size edges h w"
  shows "for_loop [0..<h] (\<lambda>i.
           for_loop [0..<w] (\<lambda>j (minValue, maxValue).
             and_then (index2 edges i j) (\<lambda>e.
             Inr (if e < minValue then e else minValue, if e > maxValue then e else maxValue))))
           s
         = Inr (foldl scan_step s (map (\<lambda>(i, j). edges ! i ! j) (List.product [0..<h] [0..<w])))"
proof -
  let ?cells = "List.product [0..<h] [0..<w]"
  let ?body = "\<lambda>(i, j) (minValue, maxValue).
             and_then (index2 edges i j) (\<lambda>e.
             Inr (if e < minValue then e else minValue, if e > maxValue then e else maxValue))"
  have "for_loop [0..<h] (\<lambda>i. for_loop [0..<w] (\<lambda>j. ?body (i, j))) s = for_loop ?cells ?body s"
    by (rule for_loop_product)
  also have "\<dots> = Inr (foldl (\<lambda>s (i, j). scan_step s (edges ! i ! j)) s ?cells)"
  proof (rule for_loop_pure)
    fix k and t :: "float64 \<times> float64" assume "k \<in> set ?cells"
    then obtain i j where k: "k = (i, j)" "i < h" "j < w" by auto
    obtain mn mx where t: "t = (mn, mx)" by (cases t)
    show "?body k t = Inr (case k of (i, j) \<Rightarrow> scan_step t (edges ! i ! j))"
      using k E by (simp add: t index2_Inr grid_of_sizeD scan_step_def)
  qed
  also have "foldl (\<lambda>s (i, j). scan_step s (edges ! i ! j)) s ?cells
          = foldl scan_step s (map (\<lambda>(i, j). edges ! i ! j) ?cells)"
    by (simp add: foldl_map case_prod_unfold)
  finally show ?thesis by simp
qed

lemma rescale_loop:
  assumes E: "grid_of_size edges h w"
  shows "for_loop [0..<h] (\<lambda>i.
           for_loop [0..<w] (\<lambda>j edges.
             and_then (index2 edges i j) (\<lambda>e. store2 edges i j (rescale mn mx e))))
           edges
         = Inr (painted ({0..<h} \<times> {0..<w}) (\<lambda>i j. rescale mn mx (edges ! i ! j)) edges)"
proof -
  let ?cells = "List.product [0..<h] [0..<w]"
  let ?body = "\<lambda>(i, j) r. and_then (index2 r i j) (\<lambda>e. store2 r i j (rescale mn mx e))"
  have "for_loop [0..<h] (\<lambda>i. for_loop [0..<w] (\<lambda>j. ?body (i, j))) edges = for_loop ?cells ?body edges"
    by (rule for_loop_product)
  also have "\<dots> = Inr (painted (set ?cells) (\<lambda>i j. rescale mn mx (edges ! i ! j)) edges)"
  proof (rule map_loop)
    fix i j assume "(i, j) \<in> set ?cells"
    then show "i < length edges \<and> j < length (edges ! i)"
      using E by (simp add: grid_of_sizeD)
  next
    show "distinct ?cells" by (simp add: distinct_product)
  qed
  finally show ?thesis by simp
qed

definition least_greatest :: "float64 list list \<Rightarrow> nat \<Rightarrow> nat \<Rightarrow> float64 \<times> float64" where
  "least_greatest edges h w =
     foldl scan_step (edges ! 0 ! 0, edges ! 0 ! 0)
       (map (\<lambda>(i, j). edges ! i ! j) (List.product [0..<h] [0..<w]))"

lemma combineAndNormalize_vars_Inr:
  assumes GX: "grid_of_size gx h w" and GY: "grid_of_size gy h w" and pos: "0 < h" "0 < w"
  shows "combineAndNormalize_vars gx gy
         = Inr (gx, gy,
             painted ({0..<h} \<times> {0..<w})
               (\<lambda>i j. rescale (fst (least_greatest (magnitudes gx gy h w) h w))
                               (snd (least_greatest (magnitudes gx gy h w) h w))
                               (magnitudes gx gy h w ! i ! j))
               (magnitudes gx gy h w))"
proof -
  let ?M = "magnitudes gx gy h w"
  obtain gx0 rest where gx: "gx = gx0 # rest" "length gx0 = w"
    using GX pos by (cases gx) (auto simp: grid_of_size_def)
  have len: "length gx = h" using GX by (simp add: grid_of_sizeD)
  have M: "grid_of_size ?M h w" by simp
  have lenM: "length ?M = h" "length (?M ! 0) = w"
    using pos by (simp_all add: grid_of_sizeD[OF M])
  have first: "index2 ?M 0 0 = Inr (?M ! 0 ! 0)" "index ?M 0 = Inr (?M ! 0)"
    using pos lenM by (simp_all add: index2_Inr index_def)
  obtain mn mx where mm: "least_greatest ?M h w = (mn, mx)"
    by (cases "least_greatest ?M h w")
  have scan: "for_loop [0..<h] (\<lambda>i.
           for_loop [0..<w] (\<lambda>j (minValue, maxValue).
             and_then (index2 ?M i j) (\<lambda>e.
             Inr (if e < minValue then e else minValue, if e > maxValue then e else maxValue))))
           (?M ! 0 ! 0, ?M ! 0 ! 0) = Inr (mn, mx)"
    using scan_loop[OF M, of "(?M ! 0 ! 0, ?M ! 0 ! 0)"] mm by (simp add: least_greatest_def)
  show ?thesis
    unfolding combineAndNormalize_vars_def
    using len gx(2)
    by (simp add: gx(1) Let_def magnitude_loop[OF GX GY, unfolded gx(1)] first[unfolded gx(1)]
        lenM[unfolded gx(1)] scan[unfolded gx(1)] rescale_loop[OF M, unfolded gx(1)] mm[unfolded gx(1)])
qed

lemma grid_1_2:
  assumes "grid_of_size r 1 2" "r ! 0 ! 0 = a" "r ! 0 ! 1 = b"
  shows "r = [[a, b]]"
proof -
  have len: "length r = 1" "length (r ! 0) = 2"
    using assms(1) by (simp_all add: grid_of_size_nth)
  have "r ! 0 = [a, b]"
  proof (rule nth_equalityI)
    show "length (r ! 0) = length [a, b]" using len by simp
  next
    fix j assume "j < length (r ! 0)"
    then have "j = 0 \<or> j = 1" using len by auto
    then show "r ! 0 ! j = [a, b] ! j" using assms(2,3) by auto
  qed
  moreover have "r = [r ! 0]"
    using len(1) by (cases r) auto
  ultimately show ?thesis by simp
qed

lemma least_greatest_props:
  assumes pos: "0 < h" "0 < w" and E: "grid_of_size edges h w"
    and nn: "\<forall>i<h. \<forall>j<w. edges ! i ! j \<noteq> NaN"
  shows "(\<exists>i<h. \<exists>j<w. fst (least_greatest edges h w) = edges ! i ! j)
       \<and> (\<forall>i<h. \<forall>j<w. fst (least_greatest edges h w) \<le> edges ! i ! j)
       \<and> (\<exists>i<h. \<exists>j<w. snd (least_greatest edges h w) = edges ! i ! j)
       \<and> (\<forall>i<h. \<forall>j<w. edges ! i ! j \<le> snd (least_greatest edges h w))"
proof -
  let ?xs = "map (\<lambda>(i, j). edges ! i ! j) (List.product [0..<h] [0..<w])"
  let ?x0 = "edges ! 0 ! 0"
  have mem: "x \<in> set ?xs \<longleftrightarrow> (\<exists>i<h. \<exists>j<w. x = edges ! i ! j)" for x
  proof
    assume "x \<in> set ?xs"
    then obtain c where c: "c \<in> set (List.product [0..<h] [0..<w])" "x = (\<lambda>(i, j). edges ! i ! j) c"
      by auto
    obtain i j where ij: "c = (i, j)" by (cases c)
    with c have "i < h" "j < w" "x = edges ! i ! j" by simp_all
    then show "\<exists>i<h. \<exists>j<w. x = edges ! i ! j" by blast
  next
    assume "\<exists>i<h. \<exists>j<w. x = edges ! i ! j"
    then obtain i j where ij: "i < h" "j < w" "x = edges ! i ! j" by blast
    then have "(i, j) \<in> set (List.product [0..<h] [0..<w])" by simp
    then have "(\<lambda>(i, j). edges ! i ! j) (i, j) \<in> (\<lambda>(i, j). edges ! i ! j) ` set (List.product [0..<h] [0..<w])"
      by (rule imageI)
    then show "x \<in> set ?xs" using ij by (simp only: set_map split_conv)
  qed
  have nan: "\<forall>x \<in> set ?xs. x \<noteq> NaN"
  proof
    fix x assume "x \<in> set ?xs"
    then obtain i j where "i < h" "j < w" "x = edges ! i ! j" unfolding mem by blast
    then show "x \<noteq> NaN" using nn by simp
  qed
  have x0: "?x0 \<noteq> NaN" using nn pos by simp
  have x0_in: "?x0 \<in> set ?xs" unfolding mem using pos by blast
  define xs where "xs = ?xs"
  define lo where "lo = fst (least_greatest edges h w)"
  define hi where "hi = snd (least_greatest edges h w)"
  have nan': "\<forall>x \<in> set xs. x \<noteq> NaN" and x0_in': "?x0 \<in> set xs"
    using nan x0_in unfolding xs_def by blast+
  have L: "lo \<in> insert ?x0 (set xs) \<and> lo \<le> ?x0 \<and> (\<forall>x \<in> set xs. lo \<le> x)"
    unfolding lo_def least_greatest_def xs_def[symmetric] by (rule scan_least[OF nan' x0])
  have G: "hi \<in> insert ?x0 (set xs) \<and> ?x0 \<le> hi \<and> (\<forall>x \<in> set xs. x \<le> hi)"
    unfolding hi_def least_greatest_def xs_def[symmetric] by (rule scan_greatest[OF nan' x0])
  have "lo \<in> set xs" using L x0_in' by blast
  then have 1: "fst (least_greatest edges h w) \<in> set ?xs"
    unfolding lo_def xs_def .
  have "\<forall>x \<in> set xs. lo \<le> x" using L by blast
  then have 2: "\<forall>x \<in> set ?xs. fst (least_greatest edges h w) \<le> x"
    unfolding lo_def xs_def .
  have "hi \<in> set xs" using G x0_in' by blast
  then have 3: "snd (least_greatest edges h w) \<in> set ?xs"
    unfolding hi_def xs_def .
  have "\<forall>x \<in> set xs. x \<le> hi" using G by blast
  then have 4: "\<forall>x \<in> set ?xs. x \<le> snd (least_greatest edges h w)"
    unfolding hi_def xs_def .
  have a: "\<exists>i<h. \<exists>j<w. fst (least_greatest edges h w) = edges ! i ! j"
    using 1 unfolding mem .
  have b: "\<forall>i<h. \<forall>j<w. fst (least_greatest edges h w) \<le> edges ! i ! j"
  proof (intro allI impI)
    fix i j assume "i < h" "j < w"
    then have "edges ! i ! j \<in> set ?xs" unfolding mem by blast
    with 2 show "fst (least_greatest edges h w) \<le> edges ! i ! j" by (rule bspec)
  qed
  have c: "\<exists>i<h. \<exists>j<w. snd (least_greatest edges h w) = edges ! i ! j"
    using 3 unfolding mem .
  have d: "\<forall>i<h. \<forall>j<w. edges ! i ! j \<le> snd (least_greatest edges h w)"
  proof (intro allI impI)
    fix i j assume "i < h" "j < w"
    then have "edges ! i ! j \<in> set ?xs" unfolding mem by blast
    with 4 show "edges ! i ! j \<le> snd (least_greatest edges h w)" by (rule bspec)
  qed
  from a b c d show ?thesis by (intro conjI)
qed

text \<open>
  C7. For two gradient grids of the same shape, \<open>h\<close> by \<open>w\<close> with \<open>h, w \<ge> 1\<close>, whose
  magnitudes \<open>M(i, j) = sqrt(Gx(i, j)^2 + Gy(i, j)^2)\<close> can be compared with one another
  (none is NaN), combineAndNormalize returns a grid of the same shape, and there are a
  least magnitude \<open>mn\<close> and a greatest magnitude \<open>mx\<close> with which every cell of the result is
  \<open>255 * (M(i, j) - mn) / (mx - mn)\<close>, the operations being those of float64 and nothing
  being rounded to an integer. The two gradient grids are left as they were.
\<close>

theorem combiner_contract:
  assumes "grid_of_size gx h w" and "grid_of_size gy h w" and "1 \<le> h" and "1 \<le> w"
    and "\<forall>i<h. \<forall>j<w. magnitude (gx ! i ! j) (gy ! i ! j) \<noteq> NaN"
  shows "\<exists>r mn mx.
           combineAndNormalize_vars gx gy = Inr (gx, gy, r)
         \<and> combineAndNormalize gx gy = Inr r
         \<and> grid_of_size r h w
         \<and> (\<exists>i<h. \<exists>j<w. mn = magnitude (gx ! i ! j) (gy ! i ! j))
         \<and> (\<forall>i<h. \<forall>j<w. mn \<le> magnitude (gx ! i ! j) (gy ! i ! j))
         \<and> (\<exists>i<h. \<exists>j<w. mx = magnitude (gx ! i ! j) (gy ! i ! j))
         \<and> (\<forall>i<h. \<forall>j<w. magnitude (gx ! i ! j) (gy ! i ! j) \<le> mx)
         \<and> (\<forall>i<h. \<forall>j<w.
               r ! i ! j = Finite 255 * (magnitude (gx ! i ! j) (gy ! i ! j) - mn) / (mx - mn))"
proof -
  let ?M = "magnitudes gx gy h w"
  let ?mn = "fst (least_greatest ?M h w)" and ?mx = "snd (least_greatest ?M h w)"
  let ?r = "painted ({0..<h} \<times> {0..<w}) (\<lambda>i j. rescale ?mn ?mx (?M ! i ! j)) ?M"
  have pos: "0 < h" "0 < w" using assms by simp_all
  have vars: "combineAndNormalize_vars gx gy = Inr (gx, gy, ?r)"
    using assms(1,2) pos by (rule combineAndNormalize_vars_Inr)
  then have ret: "combineAndNormalize gx gy = Inr ?r"
    by (simp add: combineAndNormalize_def)
  have size: "grid_of_size ?r h w" by simp
  have nn: "\<forall>i<h. \<forall>j<w. ?M ! i ! j \<noteq> NaN"
    using assms(5) by (simp add: magnitudes_nth)
  note P = least_greatest_props[OF pos magnitudes_size nn]
  have a: "\<exists>i<h. \<exists>j<w. ?mn = magnitude (gx ! i ! j) (gy ! i ! j)"
  proof -
    from P obtain i j where "i < h" "j < w" "?mn = ?M ! i ! j" by blast
    then have "i < h \<and> (\<exists>j<w. ?mn = magnitude (gx ! i ! j) (gy ! i ! j))"
      by (auto simp: magnitudes_nth)
    then show ?thesis by blast
  qed
  have b: "\<forall>i<h. \<forall>j<w. ?mn \<le> magnitude (gx ! i ! j) (gy ! i ! j)"
  proof (intro allI impI)
    fix i j assume ij: "i < h" "j < w"
    with P have "?mn \<le> ?M ! i ! j" by blast
    then show "?mn \<le> magnitude (gx ! i ! j) (gy ! i ! j)" using ij by (simp add: magnitudes_nth)
  qed
  have c: "\<exists>i<h. \<exists>j<w. ?mx = magnitude (gx ! i ! j) (gy ! i ! j)"
  proof -
    from P obtain i j where "i < h" "j < w" "?mx = ?M ! i ! j" by blast
    then have "i < h \<and> (\<exists>j<w. ?mx = magnitude (gx ! i ! j) (gy ! i ! j))"
      by (auto simp: magnitudes_nth)
    then show ?thesis by blast
  qed
  have d: "\<forall>i<h. \<forall>j<w. magnitude (gx ! i ! j) (gy ! i ! j) \<le> ?mx"
  proof (intro allI impI)
    fix i j assume ij: "i < h" "j < w"
    with P have "?M ! i ! j \<le> ?mx" by blast
    then show "magnitude (gx ! i ! j) (gy ! i ! j) \<le> ?mx" using ij by (simp add: magnitudes_nth)
  qed
  have e: "\<forall>i<h. \<forall>j<w.
      ?r ! i ! j = Finite 255 * (magnitude (gx ! i ! j) (gy ! i ! j) - ?mn) / (?mx - ?mn)"
    by (simp add: painted_nth grid_of_sizeD[OF magnitudes_size] magnitudes_nth rescale_def)
  from vars ret size a b c d e show ?thesis
    by (intro exI[of _ ?r] exI[of _ ?mn] exI[of _ ?mx] conjI)
qed

theorem combiner_contract_witness:
  "grid_of_size [[Finite 3, Finite 0]] 1 2 \<and> grid_of_size [[Finite 4, Finite 0]] 1 2
   \<and> magnitude (Finite 3) (Finite 4) = Finite 5 \<and> magnitude (Finite 0) (Finite 0) = Finite 0
   \<and> combineAndNormalize_vars [[Finite 3, Finite 0]] [[Finite 4, Finite 0]]
        = Inr ([[Finite 3, Finite 0]], [[Finite 4, Finite 0]], [[Finite 255, Finite 0]])"
proof -
  let ?gx = "[[Finite 3, Finite 0]]" and ?gy = "[[Finite 4, Finite 0]]"
  have gx: "grid_of_size ?gx 1 2" and gy: "grid_of_size ?gy 1 2"
    by (simp_all add: grid_of_size_def)
  have m0: "magnitude (Finite 3) (Finite 4) = Finite 5"
    and m1: "magnitude (Finite 0) (Finite 0) = Finite 0"
    by (simp_all add: float_eval)
  have M: "magnitude (?gx ! i ! j) (?gy ! i ! j) = (if j = 0 then Finite 5 else Finite 0)"
    if "i < 1" "j < 2" for i j
    using that m0 m1 by (auto simp: less_2_cases_iff)
  have nn: "\<forall>i<1. \<forall>j<2. magnitude (?gx ! i ! j) (?gy ! i ! j) \<noteq> NaN"
    using M by simp
  from combiner_contract[OF gx gy _ _ nn] obtain r mn mx where
    vars: "combineAndNormalize_vars ?gx ?gy = Inr (?gx, ?gy, r)"
    and size: "grid_of_size r 1 2"
    and mn_in: "\<exists>i<1. \<exists>j<2. mn = magnitude (?gx ! i ! j) (?gy ! i ! j)"
    and mn_le: "\<forall>i<1. \<forall>j<2. mn \<le> magnitude (?gx ! i ! j) (?gy ! i ! j)"
    and mx_in: "\<exists>i<1. \<exists>j<2. mx = magnitude (?gx ! i ! j) (?gy ! i ! j)"
    and mx_ge: "\<forall>i<1. \<forall>j<2. magnitude (?gx ! i ! j) (?gy ! i ! j) \<le> mx"
    and cells: "\<forall>i<1. \<forall>j<2.
        r ! i ! j = Finite 255 * (magnitude (?gx ! i ! j) (?gy ! i ! j) - mn) / (mx - mn)"
    by auto
  have mn_cases: "mn = Finite 5 \<or> mn = Finite 0"
  proof -
    from mn_in obtain i j where "i < 1" "j < 2" "mn = magnitude (?gx ! i ! j) (?gy ! i ! j)" by blast
    then have "mn = (if j = 0 then Finite 5 else Finite 0)" using M[of i j] by simp
    then show ?thesis by (cases "j = 0") simp_all
  qed
  have "mn \<le> magnitude (?gx ! 0 ! 1) (?gy ! 0 ! 1)"
    by (rule mn_le[rule_format]) simp_all
  then have "mn \<le> Finite 0" using M[of 0 1] by simp
  moreover have "\<not> Finite 5 \<le> Finite 0" by (simp add: float_eval)
  ultimately have mn: "mn = Finite 0" using mn_cases by auto
  have mx_cases: "mx = Finite 5 \<or> mx = Finite 0"
  proof -
    from mx_in obtain i j where "i < 1" "j < 2" "mx = magnitude (?gx ! i ! j) (?gy ! i ! j)" by blast
    then have "mx = (if j = 0 then Finite 5 else Finite 0)" using M[of i j] by simp
    then show ?thesis by (cases "j = 0") simp_all
  qed
  have "magnitude (?gx ! 0 ! 0) (?gy ! 0 ! 0) \<le> mx"
    by (rule mx_ge[rule_format]) simp_all
  then have "Finite 5 \<le> mx" using M[of 0 0] by simp
  then have mx: "mx = Finite 5" using mx_cases \<open>\<not> Finite 5 \<le> Finite 0\<close> by auto
  have "r ! 0 ! 0 = Finite 255 * (magnitude (?gx ! 0 ! 0) (?gy ! 0 ! 0) - mn) / (mx - mn)"
    by (rule cells[rule_format]) simp_all
  then have "r ! 0 ! 0 = Finite 255 * (Finite 5 - Finite 0) / (Finite 5 - Finite 0)"
    using M[of 0 0] mn mx by simp
  then have c0: "r ! 0 ! 0 = Finite 255" by (simp add: float_eval)
  have "r ! 0 ! 1 = Finite 255 * (magnitude (?gx ! 0 ! 1) (?gy ! 0 ! 1) - mn) / (mx - mn)"
    by (rule cells[rule_format]) simp_all
  then have "r ! 0 ! 1 = Finite 255 * (Finite 0 - Finite 0) / (Finite 5 - Finite 0)"
    using M[of 0 1] mn mx by simp
  then have c1: "r ! 0 ! 1 = Finite 0" by (simp add: float_eval)
  have "r = [[Finite 255, Finite 0]]" using size c0 c1 by (rule grid_1_2)
  with vars gx gy m0 m1 show ?thesis by simp
qed

lemma rescale_same: "rescale m m m = NaN"
  by (cases m) (simp_all add: float_eval)

lemma flt_irrefl: "\<not> flt m m"
  by (cases m) simp_all

lemma scan_constant:
  "\<forall>x \<in> set xs. x = m \<Longrightarrow> foldl scan_step (m, m) xs = (m, m)"
  by (induction xs) (simp_all add: scan_step_def less_float64_def flt_irrefl)

lemma grid_constant:
  assumes "grid_of_size g h w" "\<forall>i<h. \<forall>j<w. g ! i ! j = c"
  shows "g = replicate h (replicate w c)"
proof (rule nth_equalityI)
  show "length g = length (replicate h (replicate w c))"
    using assms(1) by (simp add: grid_of_sizeD)
next
  fix i assume "i < length g"
  then have i: "i < h" using assms(1) by (simp add: grid_of_sizeD)
  have "g ! i = replicate w c"
  proof (rule nth_equalityI)
    show "length (g ! i) = length (replicate w c)"
      using assms(1) i by (simp add: grid_of_sizeD)
  next
    fix j assume "j < length (g ! i)"
    then have "j < w" using assms(1) i by (simp add: grid_of_sizeD)
    then show "g ! i ! j = replicate w c ! j" using assms(2) i by simp
  qed
  then show "g ! i = replicate h (replicate w c) ! i" using i by simp
qed

lemma least_greatest_constant:
  assumes "0 < h" "0 < w" "\<forall>i<h. \<forall>j<w. edges ! i ! j = m"
  shows "least_greatest edges h w = (m, m)"
proof -
  have "\<forall>x \<in> set (map (\<lambda>(i, j). edges ! i ! j) (List.product [0..<h] [0..<w])). x = m"
    using assms(3) by auto
  moreover have "edges ! 0 ! 0 = m" using assms by simp
  ultimately show ?thesis
    by (simp only: least_greatest_def scan_constant)
qed

text \<open>
  C4. The degenerate range. When all the magnitudes are the same value, the least and the
  greatest are equal and combineAndNormalize divides \<open>255 * (m - m)\<close> by \<open>m - m\<close>: every
  cell of the result is NaN, and none is 0. Gradient grids that are zero everywhere are
  such a case.
\<close>

theorem combiner_degenerate_range:
  assumes "grid_of_size gx h w" and "grid_of_size gy h w" and "1 \<le> h" and "1 \<le> w"
    and "\<forall>i<h. \<forall>j<w. magnitude (gx ! i ! j) (gy ! i ! j) = m"
  shows "combineAndNormalize gx gy = Inr (replicate h (replicate w NaN))"
proof -
  let ?M = "magnitudes gx gy h w"
  let ?r = "painted ({0..<h} \<times> {0..<w})
              (\<lambda>i j. rescale (fst (least_greatest ?M h w)) (snd (least_greatest ?M h w)) (?M ! i ! j)) ?M"
  have pos: "0 < h" "0 < w" using assms by simp_all
  have "combineAndNormalize_vars gx gy = Inr (gx, gy, ?r)"
    using assms(1,2) pos by (rule combineAndNormalize_vars_Inr)
  then have ret: "combineAndNormalize gx gy = Inr ?r"
    by (simp add: combineAndNormalize_def)
  have M: "\<forall>i<h. \<forall>j<w. ?M ! i ! j = m"
    using assms(5) by (simp add: magnitudes_nth)
  have lg: "least_greatest ?M h w = (m, m)"
    using pos M by (rule least_greatest_constant)
  have "\<forall>i<h. \<forall>j<w. ?r ! i ! j = NaN"
    using M by (simp add: painted_nth grid_of_sizeD[OF magnitudes_size] lg rescale_same)
  moreover have "grid_of_size ?r h w" by simp
  ultimately have "?r = replicate h (replicate w NaN)"
    by (intro grid_constant) simp_all
  with ret show ?thesis by simp
qed

theorem combiner_degenerate_range_witness:
  "grid_of_size [[Finite 0, Finite 0], [Finite 0, Finite 0]] 2 2
   \<and> magnitude (Finite 0) (Finite 0) = Finite 0
   \<and> combineAndNormalize [[Finite 0, Finite 0], [Finite 0, Finite 0]]
        [[Finite 0, Finite 0], [Finite 0, Finite 0]] = Inr [[NaN, NaN], [NaN, NaN]]"
proof -
  let ?z = "[[Finite 0, Finite 0], [Finite 0, Finite 0]]"
  have g: "grid_of_size ?z 2 2" by (simp add: grid_of_size_def)
  have m: "magnitude (Finite 0) (Finite 0) = Finite 0" by (simp add: float_eval)
  have cells: "?z ! i ! j = Finite 0" if "i < 2" "j < 2" for i j
    using that by (auto simp: less_2_cases_iff)
  have all: "\<forall>i<2. \<forall>j<2. magnitude (?z ! i ! j) (?z ! i ! j) = Finite 0"
    using cells m by simp
  from combiner_degenerate_range[OF g g _ _ all] g m show ?thesis
    by (simp add: numeral_2_eq_2)
qed

section \<open>Uniform grids and kernels whose weights sum to zero\<close>

definition interior :: "nat \<Rightarrow> nat \<Rightarrow> nat \<Rightarrow> nat \<Rightarrow> nat \<Rightarrow> nat \<Rightarrow> bool" where
  "interior h w kH kW i j \<longleftrightarrow>
     kH div 2 \<le> i \<and> i + kH \<le> h + kH div 2 \<and> kW div 2 \<le> j \<and> j + kW \<le> w + kW div 2"

fun exact_sums :: "rat \<Rightarrow> rat \<Rightarrow> rat list \<Rightarrow> bool" where
  "exact_sums s c [] = True"
| "exact_sums s c (k # ks) =
     (round64 (c * k) = Finite (c * k) \<and> round64 (s + c * k) = Finite (s + c * k)
      \<and> exact_sums (s + c * k) c ks)"

definition tenth :: float64 where
  "tenth = Finite (3602879701896397 / 36028797018963968)"

lemma concat_grid:
  assumes "grid_of_size k kH kW"
  shows "map (\<lambda>(a, b). k ! a ! b) (List.product [0..<kH] [0..<kW]) = concat k"
proof -
  have "map (\<lambda>(a, b). k ! a ! b) (List.product [0..<kH] [0..<kW])
          = concat (map (\<lambda>a. map (\<lambda>b. k ! a ! b) [0..<kW]) [0..<kH])"
    by (simp add: product_concat_map map_concat comp_def)
  also have "map (\<lambda>a. map (\<lambda>b. k ! a ! b) [0..<kW]) [0..<kH] = map (\<lambda>a. k ! a) [0..<kH]"
  proof (rule map_cong[OF refl])
    fix a assume "a \<in> set [0..<kH]"
    then have "length (k ! a) = kW" using assms by (simp add: grid_of_sizeD)
    then show "map (\<lambda>b. k ! a ! b) [0..<kW] = k ! a" using map_nth[of "k ! a"] by simp
  qed
  also have "\<dots> = k" using assms map_nth[of k] by (simp add: grid_of_sizeD)
  finally show ?thesis .
qed

lemma interior_weighted_sum:
  assumes K: "grid_of_size k kH kW"
    and U: "\<forall>i<h. \<forall>j<w. g ! i ! j = c"
    and I: "interior h w kH kW i j"
  shows "weighted_sum g h w k kH kW i j = foldl (\<lambda>s v. s + c * v) 0 (concat k)"
proof -
  let ?cells = "List.product [0..<kH] [0..<kW]"
  have "weighted_sum g h w k kH kW i j = foldl (\<lambda>s (a, b). s + c * k ! a ! b) 0 ?cells"
    unfolding weighted_sum_def
  proof (rule foldl_cong_set)
    fix s x assume "x \<in> set ?cells"
    then obtain a b where x: "x = (a, b)" "a < kH" "b < kW" by auto
    have r: "kH div 2 \<le> i + a" "i + a < kH div 2 + h" "i + a - kH div 2 < h"
      using I x by (auto simp: interior_def)
    have cl: "kW div 2 \<le> j + b" "j + b < kW div 2 + w" "j + b - kW div 2 < w"
      using I x by (auto simp: interior_def)
    have "pad_at g h w (kH div 2) (kW div 2) (i + a) (j + b) = c"
      using r cl U by (simp add: pad_at_def)
    then show "(case x of (a, b) \<Rightarrow> s + pad_at g h w (kH div 2) (kW div 2) (i + a) (j + b) * k ! a ! b)
             = (case x of (a, b) \<Rightarrow> s + c * k ! a ! b)"
      by (simp add: x)
  qed
  also have "\<dots> = foldl (\<lambda>s v. s + c * v) 0 (map (\<lambda>(a, b). k ! a ! b) ?cells)"
    by (simp add: foldl_map case_prod_unfold)
  finally show ?thesis by (simp only: concat_grid[OF K])
qed

lemma interior_in_grid:
  assumes "interior h w kH kW i j" "0 < kH" "0 < kW"
  shows "i < h" "j < w"
  using assms by (auto simp: interior_def)

lemma exact_accumulate:
  assumes "is_finite c" "\<forall>v \<in> set vs. is_finite v" "exact_sums s (fval c) (map fval vs)"
  shows "foldl (\<lambda>a v. a + c * v) (Finite s) vs = Finite (s + fval c * sum_list (map fval vs))"
  using assms(2,3)
proof (induction vs arbitrary: s)
  case Nil
  show ?case by simp
next
  case (Cons v vs)
  let ?p = "fval c * fval v"
  have v: "is_finite v" using Cons.prems(1) by simp
  have ex: "round64 ?p = Finite ?p" "round64 (s + ?p) = Finite (s + ?p)"
    "exact_sums (s + ?p) (fval c) (map fval vs)"
    using Cons.prems(2) by simp_all
  have prod: "is_finite (c * v) \<and> fval (c * v) = ?p \<and> c * v \<noteq> NaN"
    using assms(1) v ex(1)
    by (cases c; cases v) (auto simp: times_float64_def fmul_def Let_def signed_zero_def)
  have "Finite s + c * v = Finite (s + ?p)"
    using prod ex(2)
    by (cases "c * v") (auto simp: plus_float64_def fadd_def Let_def signed_zero_def)
  then have "foldl (\<lambda>a v. a + c * v) (Finite s) (v # vs)
          = foldl (\<lambda>a v. a + c * v) (Finite (s + ?p)) vs"
    by simp
  also have "\<dots> = Finite (s + ?p + fval c * sum_list (map fval vs))"
    by (rule Cons.IH) (use Cons.prems ex in auto)
  finally show ?case by (simp add: algebra_simps)
qed

text \<open>
  C9. For a uniform grid of the finite constant \<open>c\<close> and a kernel of finite weights that
  sum to zero, the result of convolve is exactly \<open>+0.0\<close> at every interior cell, provided
  that no step of the accumulation rounds: every product \<open>c * K(a, b)\<close> and every partial sum,
  taken in row-major order, is a value of the format. Sobel X and Sobel Y with
  \<open>c = 0.5\<close> are such cases. (Without the proviso the cell holds what the roundings
  leave: for \<open>c = 0.1\<close> and Sobel Y it is \<open>-2^-55\<close>.)
\<close>

theorem uniform_grid_zero_sum_kernel:
  assumes "grid_of_size g h w" and "\<forall>i<h. \<forall>j<w. g ! i ! j = c" and "is_finite c"
    and "grid_of_size k kH kW" and "1 \<le> kH" and "1 \<le> kW"
    and "\<forall>v \<in> set (concat k). is_finite v"
    and "sum_list (map fval (concat k)) = 0"
    and "exact_sums 0 (fval c) (map fval (concat k))"
    and "interior h w kH kW i j"
  shows "\<exists>r. convolve g k = Inr r \<and> r ! i ! j = Finite 0"
proof -
  have ij: "i < h" "j < w"
    using assms(5,6,10) by (auto simp: interior_def)
  then have h: "0 < h" by simp
  have "convolve g k = Inr (convolved g h w k kH kW)"
    using assms(1,4,5) h by (intro convolve_Inr) simp_all
  moreover have "convolved g h w k kH kW ! i ! j = foldl (\<lambda>s v. s + c * v) 0 (concat k)"
    using ij by (simp add: convolved_nth interior_weighted_sum[OF assms(4,2,10)])
  moreover have "foldl (\<lambda>s v. s + c * v) (Finite 0) (concat k)
          = Finite (0 + fval c * sum_list (map fval (concat k)))"
    using assms(3,7,9) by (rule exact_accumulate)
  ultimately show ?thesis
    using assms(8) by (simp add: zero_float64_def)
qed

theorem uniform_grid_zero_sum_kernel_witness:
  "grid_of_size (replicate 5 (replicate 5 (Finite (1 / 2)))) 5 5
   \<and> grid_of_size sobelY 3 3
   \<and> sum_list (map fval (concat sobelY)) = 0
   \<and> exact_sums 0 (1 / 2) (map fval (concat sobelY))
   \<and> interior 5 5 3 3 2 2
   \<and> (\<exists>r. convolve (replicate 5 (replicate 5 (Finite (1 / 2)))) sobelY = Inr r
          \<and> r ! 2 ! 2 = Finite 0)"
proof -
  let ?g = "replicate 5 (replicate 5 (Finite (1 / 2)))"
  have g: "grid_of_size ?g 5 5" by (simp add: grid_of_size_def)
  have u: "\<forall>i<5. \<forall>j<5. ?g ! i ! j = Finite (1 / 2)" by simp
  have c: "is_finite (Finite (1 / 2))" by simp
  have k: "grid_of_size sobelY 3 3" by (simp add: grid_of_size_def sobelY_def)
  have f: "\<forall>v \<in> set (concat sobelY). is_finite v" by (simp add: sobelY_def)
  have z: "sum_list (map fval (concat sobelY)) = 0" by (simp add: sobelY_def)
  have e: "exact_sums 0 (1 / 2) (map fval (concat sobelY))"
    by (simp add: sobelY_def float_eval)
  have i: "interior 5 5 3 3 2 2" by (simp add: interior_def)
  from uniform_grid_zero_sum_kernel[OF g u c k _ _ f z _ i] e g k z i
  show ?thesis by simp
qed

theorem uniform_grid_sobelY_counterexample:
  "is_float64 tenth
   \<and> grid_of_size sobelY 3 3
   \<and> sum_list (map fval (concat sobelY)) = 0
   \<and> interior 3 3 3 3 1 1
   \<and> (\<exists>r. convolve (replicate 3 (replicate 3 tenth)) sobelY = Inr r
          \<and> r ! 1 ! 1 = Finite (- (1 / 36028797018963968))
          \<and> r ! 1 ! 1 \<noteq> Finite 0)"
proof -
  let ?g = "replicate 3 (replicate 3 tenth)"
  have t: "is_float64 tenth" by (simp add: tenth_def float_eval)
  have g: "grid_of_size ?g 3 3" by (simp add: grid_of_size_def)
  have u: "\<forall>i<3. \<forall>j<3. ?g ! i ! j = tenth" by simp
  have k: "grid_of_size sobelY 3 3" by (simp add: grid_of_size_def sobelY_def)
  have z: "sum_list (map fval (concat sobelY)) = 0" by (simp add: sobelY_def)
  have i: "interior 3 3 3 3 1 1" by (simp add: interior_def)
  have "convolve ?g sobelY = Inr (convolved ?g 3 3 sobelY 3 3)"
    using g k by (intro convolve_Inr) simp_all
  moreover have "convolved ?g 3 3 sobelY 3 3 ! 1 ! 1 = weighted_sum ?g 3 3 sobelY 3 3 1 1"
    by (rule convolved_nth) simp_all
  moreover note interior_weighted_sum[OF k u i]
  moreover have "foldl (\<lambda>s v. s + tenth * v) 0 (concat sobelY) = Finite (- (1 / 36028797018963968))"
    by (simp add: sobelY_def tenth_def float_eval)
  ultimately show ?thesis
    using t k z i by simp
qed

section \<open>Quantization: the claims\<close>

lemma write_loop_gen:
  fixes g :: "'a list list"
  assumes "\<And>i j. (i, j) \<in> set cells \<Longrightarrow> i < length g \<and> j < length (g ! i)"
    and "\<And>i j (r :: 'a list list). (i, j) \<in> set cells \<Longrightarrow> i < length r \<Longrightarrow> j < length (r ! i)
           \<Longrightarrow> body (i, j) r = Inr (r[i := (r ! i)[j := v i j]])"
  shows "for_loop cells body g = Inr (painted (set cells) v g)"
  using assms
proof (induction cells arbitrary: g)
  case Nil
  show ?case by simp
next
  case (Cons c cells)
  obtain i j where c: "c = (i, j)" by (cases c)
  let ?g = "g[i := (g ! i)[j := v i j]]"
  have ij: "i < length g" "j < length (g ! i)" using Cons.prems(1)[of i j] c by simp_all
  have step: "body c g = Inr ?g" using Cons.prems(2)[of i j g] ij c by simp
  have "for_loop cells body ?g = Inr (painted (set cells) v ?g)"
  proof (rule Cons.IH)
    fix a b assume "(a, b) \<in> set cells"
    then have "a < length g \<and> b < length (g ! a)" using Cons.prems(1)[of a b] by simp
    then show "a < length ?g \<and> b < length (?g ! a)" by simp
  next
    fix a b and r :: "'a list list"
    assume "(a, b) \<in> set cells" "a < length r" "b < length (r ! a)"
    then show "body (a, b) r = Inr (r[a := (r ! a)[b := v a b]])"
      using Cons.prems(2)[of a b r] by simp
  qed
  then show ?case
    using ij by (simp add: c[symmetric] step) (simp add: c painted_update)
qed

lemma grid_of_size_NewGray [simp]: "grid_of_size (NewGray w h) h w"
  by (auto simp: grid_of_size_def NewGray_def)

lemma length_NewGray [simp]: "length (NewGray w h) = h"
  by (simp add: NewGray_def)

lemma length_NewGray_row [simp]: "y < h \<Longrightarrow> length (NewGray w h ! y) = w"
  by (simp add: NewGray_def)

definition quantized :: "(float64 \<Rightarrow> 8 word) \<Rightarrow> float64 list list \<Rightarrow> nat \<Rightarrow> nat \<Rightarrow> 8 word list list" where
  "quantized other data h w =
     painted ({0..<h} \<times> {0..<w}) (\<lambda>y x. uint8_of other (data ! y ! x)) (NewGray w h)"

lemma quantized_size [simp]: "grid_of_size (quantized other data h w) h w"
  by (simp add: quantized_def)

lemma quantized_nth:
  "y < h \<Longrightarrow> x < w \<Longrightarrow> quantized other data h w ! y ! x = uint8_of other (data ! y ! x)"
  by (simp add: quantized_def painted_nth)

lemma quantize_loop:
  assumes D: "grid_of_size data h w" and cells: "set cells = {0..<h} \<times> {0..<w}"
  shows "for_loop cells (quantize_cell other data) (NewGray w h) = Inr (quantized other data h w)"
  unfolding quantized_def cells[symmetric]
proof (rule write_loop_gen)
  fix y x assume "(y, x) \<in> set cells"
  then have "y < h" "x < w" using cells by auto
  then show "y < length (NewGray w h) \<and> x < length (NewGray w h ! y)"
    by simp
next
  fix y x and r :: "8 word list list"
  assume "(y, x) \<in> set cells" "y < length r" "x < length (r ! y)"
  moreover from this have "y < h" "x < w" using cells by auto
  ultimately show "quantize_cell other data (y, x) r
      = Inr (r[y := (r ! y)[x := uint8_of other (data ! y ! x)]])"
    using D by (simp add: quantize_cell_def index2_Inr grid_of_sizeD SetGray_def)
qed

lemma float64ArrayToImage_Inr:
  assumes D: "grid_of_size data h w" and pos: "0 < h"
  shows "float64ArrayToImage other data = Inr (quantized other data h w)"
proof -
  have d: "length data = h" "length (data ! 0) = w" "data \<noteq> []"
    using D pos by (auto simp: grid_of_size_nth)
  have "for_loop [0..<h] (\<lambda>y. for_loop [0..<w] (\<lambda>x. quantize_cell other data (y, x))) (NewGray w h)
          = Inr (quantized other data h w)"
    unfolding for_loop_product by (rule quantize_loop[OF D]) simp
  then show ?thesis
    using d by (simp add: float64ArrayToImage_def index_0_Inr)
qed

lemma float64ArrayToImage_workers_Inr:
  assumes D: "grid_of_size data h w" and pos: "0 < h" and N: "0 < numWorkers"
  shows "float64ArrayToImage_workers other data numWorkers sched = Inr (quantized other data h w)"
proof -
  define n where "n = nat numWorkers"
  have n: "0 < n" using N by (simp add: n_def)
  define workers where
    "workers = map (\<lambda>i. worker_cells w (worker_range h n (h div n) i)) [0..<n]"
  have d: "length data = h" "length (data ! 0) = w" "data \<noteq> []"
    using D pos by (auto simp: grid_of_size_nth)
  have "set (interleave sched workers) = {0..<h} \<times> {0..<w}"
    using all_worker_cells[OF n, of w h] by (simp add: set_interleave workers_def)
  then have "for_loop (interleave sched workers) (quantize_cell other data) (NewGray w h)
          = Inr (quantized other data h w)"
    by (rule quantize_loop[OF D])
  then show ?thesis
    using d N by (simp add: float64ArrayToImage_workers_def index_0_Inr Let_def
        n_def[symmetric] workers_def[symmetric])
qed

lemma truncate_in_range:
  assumes "- 1 < q" "q < 256"
  shows "0 \<le> truncate q" "truncate q \<le> 255"
proof -
  show "0 \<le> truncate q"
  proof (cases "0 \<le> q")
    case True
    then show ?thesis by (simp add: truncate_def)
  next
    case False
    have "q \<le> of_int \<lceil>q\<rceil>" by (rule le_of_int_ceiling)
    with assms(1) have "- 1 < (of_int \<lceil>q\<rceil> :: rat)" by (rule less_le_trans)
    then have "of_int (- 1) < (of_int \<lceil>q\<rceil> :: rat)" by simp
    then have "- 1 < \<lceil>q\<rceil>" by (simp only: of_int_less_iff)
    then show ?thesis using False assms(1) by (simp add: truncate_def)
  qed
  show "truncate q \<le> 255"
  proof (cases "0 \<le> q")
    case True
    have "\<lfloor>q\<rfloor> < 256" using assms(2) by (simp add: floor_less_iff)
    then show ?thesis using True by (simp add: truncate_def)
  next
    case False
    then have "\<lceil>q\<rceil> \<le> 0" by (simp add: ceiling_le_iff)
    then show ?thesis using False by (simp add: truncate_def)
  qed
qed

lemma uint8_of_in_range:
  assumes "- 1 < q" "q < 256"
  shows "uint (uint8_of other (Finite q)) = truncate q"
proof -
  note t = truncate_in_range[OF assms]
  then have "uint8_of other (Finite q) = word_of_int (truncate q)"
    by (simp add: uint8_of_def)
  moreover have "uint (word_of_int (truncate q) :: 8 word) = truncate q"
    using t by (simp add: uint_word_of_int take_bit_int_eq_self)
  ultimately show ?thesis by simp
qed

text \<open>
  C8. For a grid of \<open>h\<close> by \<open>w\<close> samples, \<open>h \<ge> 1\<close>, both float64ArrayToImage programs
  return the same image of \<open>h\<close> by \<open>w\<close> pixels, the pixel at \<open>(x, y)\<close> being the conversion
  \<open>uint8(data[y][x])\<close>. For a sample \<open>q\<close> with \<open>-1 < q < 256\<close> the pixel is \<open>q\<close> with its
  fraction discarded, not rounded. Nothing clamps: for any other sample the pixel is
  whatever the conversion of the implementation gives.
\<close>

theorem quantization:
  assumes "grid_of_size data h w" and "1 \<le> h"
  shows "\<exists>gray. float64ArrayToImage other data = Inr gray
         \<and> (1 \<le> numWorkers \<longrightarrow>
              float64ArrayToImage_workers other data numWorkers sched = Inr gray)
         \<and> grid_of_size gray h w
         \<and> (\<forall>y<h. \<forall>x<w. gray ! y ! x = uint8_of other (data ! y ! x))
         \<and> (\<forall>y<h. \<forall>x<w. \<forall>q. data ! y ! x = Finite q \<and> - 1 < q \<and> q < 256 \<longrightarrow>
               uint (gray ! y ! x) = truncate q)"
proof -
  let ?gray = "quantized other data h w"
  have h: "0 < h" using assms(2) by simp
  have 1: "float64ArrayToImage other data = Inr ?gray"
    using assms(1) h by (rule float64ArrayToImage_Inr)
  have 2: "1 \<le> numWorkers \<longrightarrow> float64ArrayToImage_workers other data numWorkers sched = Inr ?gray"
    using float64ArrayToImage_workers_Inr[OF assms(1) h, of numWorkers other sched] by simp
  have 3: "grid_of_size ?gray h w" by simp
  have 4: "\<forall>y<h. \<forall>x<w. ?gray ! y ! x = uint8_of other (data ! y ! x)"
    by (simp add: quantized_nth)
  have 5: "\<forall>y<h. \<forall>x<w. \<forall>q. data ! y ! x = Finite q \<and> - 1 < q \<and> q < 256 \<longrightarrow>
               uint (?gray ! y ! x) = truncate q"
    by (simp add: quantized_nth uint8_of_in_range)
  from 1 2 3 4 5 show ?thesis by (intro exI[of _ ?gray] conjI)
qed

theorem quantization_witness:
  "grid_of_size [[Finite (37 / 10), Finite 255, Finite (2559 / 10)]] 1 3
   \<and> (\<exists>gray. float64ArrayToImage low_byte [[Finite (37 / 10), Finite 255, Finite (2559 / 10)]] = Inr gray
         \<and> float64ArrayToImage_workers low_byte [[Finite (37 / 10), Finite 255, Finite (2559 / 10)]] 3 [2, 0]
             = Inr gray
         \<and> uint (gray ! 0 ! 0) = 3 \<and> uint (gray ! 0 ! 1) = 255 \<and> uint (gray ! 0 ! 2) = 255)"
proof -
  let ?d = "[[Finite (37 / 10), Finite 255, Finite (2559 / 10)]]"
  have d: "grid_of_size ?d 1 3" by (simp add: grid_of_size_def)
  from quantization[OF d, of low_byte 3 "[2, 0]"] obtain gray where
    g: "float64ArrayToImage low_byte ?d = Inr gray"
      "float64ArrayToImage_workers low_byte ?d 3 [2, 0] = Inr gray"
      "\<forall>y<1. \<forall>x<3. \<forall>q. ?d ! y ! x = Finite q \<and> - 1 < q \<and> q < 256 \<longrightarrow>
               uint (gray ! y ! x) = truncate q"
    by auto
  have "uint (gray ! 0 ! 0) = truncate (37 / 10)" "uint (gray ! 0 ! 1) = truncate 255"
    "uint (gray ! 0 ! 2) = truncate (2559 / 10)"
    using g(3)[rule_format, of 0 0 "37 / 10"] g(3)[rule_format, of 0 1 255]
      g(3)[rule_format, of 0 2 "2559 / 10"] by simp_all
  then have "uint (gray ! 0 ! 0) = 3" "uint (gray ! 0 ! 1) = 255" "uint (gray ! 0 ! 2) = 255"
    by (simp_all add: truncate_def floor_rat_numeral_div)
  with g(1,2) d show ?thesis by blast
qed

theorem quantization_no_clamp_counterexample:
  "float64ArrayToImage low_byte [[Finite (- 1), Finite 300]] = Inr [[255, 44]]"
proof -
  let ?d = "[[Finite (- 1), Finite 300]]"
  have d: "grid_of_size ?d 1 2" by (simp add: grid_of_size_def)
  have r: "float64ArrayToImage low_byte ?d = Inr (quantized low_byte ?d 1 2)"
    using d by (rule float64ArrayToImage_Inr) simp
  have "quantized low_byte ?d 1 2 ! 0 ! 0 = uint8_of low_byte (?d ! 0 ! 0)"
    "quantized low_byte ?d 1 2 ! 0 ! 1 = uint8_of low_byte (?d ! 0 ! 1)"
    by (rule quantized_nth; simp)+
  moreover have "\<lceil>- 1 :: rat\<rceil> = - 1"
    using ceiling_of_int[of "- 1", where ?'a = rat] by simp
  ultimately have "quantized low_byte ?d 1 2 ! 0 ! 0 = 255" "quantized low_byte ?d 1 2 ! 0 ! 1 = 44"
    by (simp_all add: uint8_of_def low_byte_def truncate_def)
  with quantized_size[of low_byte ?d 1 2] have "quantized low_byte ?d 1 2 = [[255, 44]]"
    by (rule grid_1_2)
  with r show ?thesis by simp
qed

section \<open>Grids and kernels without rows or columns\<close>

lemma convolve_no_rows: "convolve [] k = Inl IndexOutOfRange"
  by (simp add: convolve_def index_def)

lemma convolveParallel_no_rows: "convolveParallel [] k n sched = Inl IndexOutOfRange"
  by (simp add: convolveParallel_def index_def)

lemma convolve_no_kernel_rows: "g \<noteq> [] \<Longrightarrow> convolve g [] = Inl IndexOutOfRange"
  by (simp add: convolve_def index_def)

lemma convolveParallel_no_kernel_rows:
  "g \<noteq> [] \<Longrightarrow> convolveParallel g [] n sched = Inl IndexOutOfRange"
  by (simp add: convolveParallel_def index_def)

lemma combineAndNormalize_no_rows: "combineAndNormalize [] gy = Inl IndexOutOfRange"
  by (simp add: combineAndNormalize_def combineAndNormalize_vars_def make2_def index2_def index_def)

lemma combineAndNormalize_no_columns:
  assumes "grid_of_size gx h 0" "0 < h"
  shows "combineAndNormalize gx gy = Inl IndexOutOfRange"
proof -
  obtain gx0 rest where gx: "gx = gx0 # rest" "gx0 = []"
    using assms by (cases gx) (auto simp: grid_of_size_def)
  have loop: "for_loop ks (\<lambda>i. for_loop [] (body i)) s = Inr s" for ks :: "nat list"
    and body :: "nat \<Rightarrow> nat \<Rightarrow> 's \<Rightarrow> panic + 's" and s
    by (rule for_loop_id) simp
  have "index2 (make2 (length gx) 0 :: float64 list list) 0 0 = Inl IndexOutOfRange"
    using gx by (simp add: index2_def index_def make2_def)
  then show ?thesis
    by (simp add: combineAndNormalize_def combineAndNormalize_vars_def gx loop)
qed

lemma convolved_no_columns: "convolved g h 0 k kH kW = replicate h []"
  by (rule grid_constant[of _ h 0 undefined, simplified]) simp

lemma product_Nil_right: "List.product xs [] = []"
  by (induction xs) simp_all

lemma convolved_no_kernel_columns: "convolved g h w k kH 0 = make2 h w"
proof -
  have "convolved g h w k kH 0 = replicate h (replicate w 0)"
    by (rule grid_constant) (simp_all add: convolved_nth weighted_sum_def product_Nil_right)
  then show ?thesis by (simp add: make2_def)
qed

text \<open>
  C5. Neither convolution nor the combiner checks its arguments. A grid without rows makes
  convolve and convolveParallel panic with an index out of range at \<open>image[0]\<close>, and a
  kernel without rows at \<open>kernel[0]\<close>, before anything is allocated; no grid is returned.
  The combiner panics the same way at \<open>edges[0][0]\<close> when its first grid has no rows or
  no columns. A grid whose rows are empty and a kernel whose rows are empty are not
  refused: the convolution returns \<open>h\<close> empty rows for the first, and the \<open>h\<close> by \<open>w\<close>
  grid of zeros for the second.
\<close>

theorem invalid_dimensions:
  shows "convolve [] k = Inl IndexOutOfRange
       \<and> convolveParallel [] k numWorkers sched = Inl IndexOutOfRange
       \<and> (g \<noteq> [] \<longrightarrow> convolve g [] = Inl IndexOutOfRange
                     \<and> convolveParallel g [] numWorkers sched = Inl IndexOutOfRange)
       \<and> combineAndNormalize [] gy = Inl IndexOutOfRange
       \<and> (grid_of_size gx h 0 \<and> 1 \<le> h \<longrightarrow> combineAndNormalize gx gy = Inl IndexOutOfRange)
       \<and> (grid_of_size g h 0 \<and> 1 \<le> h \<and> grid_of_size k kH kW \<and> 1 \<le> kH \<longrightarrow>
            convolve g k = Inr (replicate h [])
          \<and> (1 \<le> numWorkers \<longrightarrow> convolveParallel g k numWorkers sched = Inr (replicate h [])))
       \<and> (grid_of_size g h w \<and> 1 \<le> h \<and> grid_of_size k kH 0 \<and> 1 \<le> kH \<longrightarrow>
            convolve g k = Inr (make2 h w)
          \<and> (1 \<le> numWorkers \<longrightarrow> convolveParallel g k numWorkers sched = Inr (make2 h w)))"
proof -
  have a: "g \<noteq> [] \<longrightarrow> convolve g [] = Inl IndexOutOfRange
                     \<and> convolveParallel g [] numWorkers sched = Inl IndexOutOfRange"
    by (simp add: convolve_no_kernel_rows convolveParallel_no_kernel_rows)
  have b: "grid_of_size gx h 0 \<and> 1 \<le> h \<longrightarrow> combineAndNormalize gx gy = Inl IndexOutOfRange"
    using combineAndNormalize_no_columns[of gx h gy] by simp
  have c: "grid_of_size g h 0 \<and> 1 \<le> h \<and> grid_of_size k kH kW \<and> 1 \<le> kH \<longrightarrow>
            convolve g k = Inr (replicate h [])
          \<and> (1 \<le> numWorkers \<longrightarrow> convolveParallel g k numWorkers sched = Inr (replicate h []))"
    using convolve_Inr[of g h 0 k kH kW] convolveParallel_Inr[of g h 0 k kH kW numWorkers sched]
    by (simp add: convolved_no_columns)
  have d: "grid_of_size g h w \<and> 1 \<le> h \<and> grid_of_size k kH 0 \<and> 1 \<le> kH \<longrightarrow>
            convolve g k = Inr (make2 h w)
          \<and> (1 \<le> numWorkers \<longrightarrow> convolveParallel g k numWorkers sched = Inr (make2 h w))"
    using convolve_Inr[of g h w k kH 0] convolveParallel_Inr[of g h w k kH 0 numWorkers sched]
    by (simp add: convolved_no_kernel_columns)
  from a b c d show ?thesis
    by (simp add: convolve_no_rows convolveParallel_no_rows combineAndNormalize_no_rows)
qed

theorem invalid_dimensions_witness:
  "grid_of_size [[], [] :: float64 list] 2 0 \<and> grid_of_size [[Finite 1]] 1 1
   \<and> convolve ([] :: float64 list list) [[Finite 1]] = Inl IndexOutOfRange
   \<and> convolve [[Finite 1]] [] = Inl IndexOutOfRange
   \<and> combineAndNormalize [[], []] [[], []] = Inl IndexOutOfRange
   \<and> convolve [[], []] [[Finite 1]] = Inr [[], []]
   \<and> convolveParallel [[], []] [[Finite 1]] 2 [1, 0] = Inr [[], []]"
proof -
  have g: "grid_of_size [[], [] :: float64 list] 2 0" and k: "grid_of_size [[Finite 1]] 1 1"
    by (simp_all add: grid_of_size_def)
  note t = invalid_dimensions[of "[[Finite 1]]" 2 "[1, 0]" "[[], []]" "[[], []]" "[[], []]" 2 1 1 0]
  from t have "convolve ([] :: float64 list list) [[Finite 1]] = Inl IndexOutOfRange" by blast
  moreover have "convolve [[Finite 1]] [] = Inl IndexOutOfRange"
    using invalid_dimensions[of "[]" 2 "[1, 0]" "[[Finite 1]]" "[[], []]" "[[], []]" 2 1 1 0] by simp
  moreover from t g have "combineAndNormalize [[], []] [[], []] = Inl IndexOutOfRange" by simp
  moreover from t g k have "convolve [[], []] [[Finite 1]] = Inr [[], []]"
    by (simp add: numeral_2_eq_2)
  moreover from t g k have "convolveParallel [[], []] [[Finite 1]] 2 [1, 0] = Inr [[], []]"
    by (simp add: numeral_2_eq_2)
  ultimately show ?thesis using g k by blast
qed

theorem invalid_dimensions_counterexample:
  "convolve [[], []] [[Finite 1]] = Inr [[], []]
   \<and> convolve [[Finite 1, Finite 2]] [[]] = Inr [[Finite 0, Finite 0]]"
proof -
  have g: "grid_of_size [[], [] :: float64 list] 2 0" and k: "grid_of_size [[Finite 1]] 1 1"
    and g': "grid_of_size [[Finite 1, Finite 2]] 1 2" and k': "grid_of_size [[] :: float64 list] 1 0"
    by (simp_all add: grid_of_size_def)
  have "convolve [[], []] [[Finite 1]] = Inr (convolved [[], []] 2 0 [[Finite 1]] 1 1)"
    using g k by (rule convolve_Inr) simp_all
  moreover have "convolve [[Finite 1, Finite 2]] [[]]
      = Inr (convolved [[Finite 1, Finite 2]] 1 2 [[]] 1 0)"
    using g' k' by (rule convolve_Inr) simp_all
  ultimately show ?thesis
    by (simp add: convolved_no_columns convolved_no_kernel_columns make2_def numeral_2_eq_2
        zero_float64_def)
qed

end
